theory Spec2Isabelle
  imports Main "HOL-Library.Word"
begin

unbundle bit_operations_syntax

section \<open>Buffer sizing (ws2811.c, lines 50-59)\<close>

text \<open>
  The sizing macros work on C's 32-bit integers.  \<open>leds\<close> is an \<open>int\<close> (the macro is
  applied to \<open>int maxcount\<close>), so \<open>leds * 3 * 8 * 3\<close> is computed in \<open>int\<close>, from left
  to right, and a product outside the range of \<open>int\<close> has no defined value in C: the
  model has no value there (\<open>None\<close>).  \<open>freq\<close> is a \<open>uint32_t\<close>, so the reset term is
  computed in \<open>uint32_t\<close>, and for the sum the \<open>int\<close> product is converted to
  \<open>uint32_t\<close>; from there on values are \<open>32 word\<close>: \<open>+\<close> and \<open>*\<close> wrap modulo
  \<open>2 ^ 32\<close>, \<open>div\<close> is the unsigned division, \<open>drop_bit\<close> the logical shift right, and
  \<open>~0x7\<close> is \<open>NOT 7\<close>.
\<close>

type_synonym u32 = "32 word"
type_synonym u8 = "8 word"

definition INT_MAX :: int where
  "INT_MAX = 2147483647"

definition INT_MIN :: int where
  "INT_MIN = - 2147483648"

definition int_mul :: "int \<Rightarrow> int \<Rightarrow> int option" where
  "int_mul a b = (if INT_MIN \<le> a * b \<and> a * b \<le> INT_MAX then Some (a * b) else None)"

definition LED_RESET_uS :: u32 where
  "LED_RESET_uS = 55"

definition LED_BIT_COUNT :: "int \<Rightarrow> u32 \<Rightarrow> u32 option" where
  "LED_BIT_COUNT leds freq =
     (case int_mul leds 3 of
        None \<Rightarrow> None
      | Some l3 \<Rightarrow>
          (case int_mul l3 8 of
             None \<Rightarrow> None
           | Some l24 \<Rightarrow>
               (case int_mul l24 3 of
                  None \<Rightarrow> None
                | Some l72 \<Rightarrow>
                    Some (word_of_int l72 + ((LED_RESET_uS * (freq * 3)) div 1000000)))))"

text \<open>
  Modelled from the spec: the constant \<open>RPI_PWM_CHANNELS\<close> is declared in pwm.h, which
  is not part of the sources at hand.  The spec speaks of two PWM channels interleaved
  word by word, and the code itself advances \<open>wordpos\<close> by 2 ("every other word is on
  the same channel").
\<close>

definition RPI_PWM_CHANNELS :: nat where
  "RPI_PWM_CHANNELS = 2"

definition PWM_BYTE_COUNT :: "int \<Rightarrow> u32 \<Rightarrow> u32 option" where
  "PWM_BYTE_COUNT leds freq =
     (case LED_BIT_COUNT leds freq of
        None \<Rightarrow> None
      | Some bits \<Rightarrow>
          Some (((((drop_bit 3 bits) AND NOT 7) + 4) + 4) * of_nat RPI_PWM_CHANNELS))"

text \<open>The reset gap of the sizing formula, in symbol clocks (a \<open>uint32_t\<close> value).\<close>

definition reset_gap :: "u32 \<Rightarrow> u32" where
  "reset_gap freq = (LED_RESET_uS * (freq * 3)) div 1000000"


section \<open>Channels and the instance record\<close>

text \<open>
  \<open>ws2811_channel_t\<close> and \<open>ws2811_t\<close> as the renderer reads them.  The field \<open>leds\<close>
  is the memory behind the pointer \<open>channel->leds\<close>, indexed by LED number, so a read
  at any index is a read of that memory, as in C.  The array \<open>channel[]\<close> is indexed
  by channel number.
\<close>

record ws2811_channel_t =
  gpionum :: int
  invert :: int
  count :: int
  leds :: "nat \<Rightarrow> u32"

record ws2811_t =
  freq :: u32
  dmanum :: int
  channel :: "nat \<Rightarrow> ws2811_channel_t"

text \<open>\<open>max_channel_led_count\<close> (lines 92-105).\<close>

definition max_channel_led_count :: "ws2811_t \<Rightarrow> int" where
  "max_channel_led_count ws =
     fold (\<lambda>chan m. if count (channel ws chan) > m then count (channel ws chan) else m)
       [0 ..< RPI_PWM_CHANNELS] 0"


section \<open>The renderer (ws2811_render, lines 681-740)\<close>

text \<open>
  The raw PWM buffer \<open>pwm_raw\<close> is addressed as an array of 32-bit words; the model
  is the store of words by index.  A write at an index beyond the allocated buffer is
  a write to that index of the store, so it stays visible.  The cursor is the triple of
  the store, \<open>wordpos\<close> and \<open>bitpos\<close>.
\<close>

type_synonym store = "nat \<Rightarrow> u32"
type_synonym cursor = "store \<times> nat \<times> int"

definition SYMBOL_HIGH :: u8 where
  "SYMBOL_HIGH = 0x6"

definition SYMBOL_LOW :: u8 where
  "SYMBOL_LOW = 0x4"

text \<open>The body of the innermost loop (lines 720-735): one sub-bit \<open>l\<close> of a symbol.\<close>

definition render_subbit :: "u8 \<Rightarrow> nat \<Rightarrow> cursor \<Rightarrow> cursor" where
  "render_subbit symbol l = (\<lambda>(raw, wordpos, bitpos).
     let w0 = raw wordpos AND NOT (push_bit (nat bitpos) 1);
         w1 = (if symbol AND push_bit l 1 \<noteq> 0 then w0 OR push_bit (nat bitpos) 1 else w0);
         raw' = raw(wordpos := w1);
         bitpos' = bitpos - 1
     in if bitpos' < 0 then (raw', wordpos + 2, 31) else (raw', wordpos, bitpos'))"

text \<open>The symbol of bit \<open>k\<close> of a colour byte (lines 706-716).\<close>

definition encode_symbol :: "int \<Rightarrow> u8 \<Rightarrow> nat \<Rightarrow> u8" where
  "encode_symbol invt c k =
     (let symbol = (if c AND push_bit k 1 \<noteq> 0 then SYMBOL_HIGH else SYMBOL_LOW)
      in if invt \<noteq> 0 then NOT symbol AND 0x7 else symbol)"

text \<open>The loop over \<open>l = 2, 1, 0\<close> (line 718).\<close>

definition render_bit :: "int \<Rightarrow> u8 \<Rightarrow> nat \<Rightarrow> cursor \<Rightarrow> cursor" where
  "render_bit invt c k = fold (render_subbit (encode_symbol invt c k)) [2, 1, 0]"

text \<open>The array \<open>color[]\<close> of one LED (lines 695-700).\<close>

definition led_color :: "u32 \<Rightarrow> u8 list" where
  "led_color led =
     [ucast (drop_bit 8 led AND 0xff),
      ucast (drop_bit 16 led AND 0xff),
      ucast (drop_bit 0 led AND 0xff)]"

text \<open>The loops over \<open>j\<close> (colour) and \<open>k = 7, \<dots>, 0\<close> (bit), lines 702-704.\<close>

definition render_led :: "int \<Rightarrow> u32 \<Rightarrow> cursor \<Rightarrow> cursor" where
  "render_led invt led cur =
     (let color = led_color led
      in fold (\<lambda>j. fold (render_bit invt (color ! j)) [7, 6, 5, 4, 3, 2, 1, 0])
           [0 ..< length color] cur)"

text \<open>
  One round of the channel loop (lines 690-739): \<open>wordpos\<close> restarts at \<open>chan\<close>,
  \<open>bitpos\<close> is taken over from the previous round and handed on.
\<close>

definition render_channel :: "ws2811_channel_t \<Rightarrow> nat \<Rightarrow> store \<times> int \<Rightarrow> store \<times> int" where
  "render_channel ch chan = (\<lambda>(raw, bitpos).
     let wordpos = chan;
         (raw', wordpos', bitpos') =
            fold (\<lambda>i. render_led (invert ch) (leds ch i)) [0 ..< nat (count ch)]
              (raw, wordpos, bitpos)
     in (raw', bitpos'))"

text \<open>The channel loop with \<open>bitpos = 31\<close> set once before it (lines 685-740).\<close>

definition render_encode :: "ws2811_t \<Rightarrow> store \<Rightarrow> store" where
  "render_encode ws raw =
     fst (fold (\<lambda>chan. render_channel (channel ws chan) chan) [0 ..< RPI_PWM_CHANNELS] (raw, 31))"


section \<open>The serial stream of a channel\<close>

text \<open>
  The PWM serializer takes the words of the buffer alternately for its two outputs and
  shifts each word out most significant bit first.  \<open>subbit raw chan off\<close> is the
  sub-bit number \<open>off\<close> of the stream of channel \<open>chan\<close>.
\<close>

definition subbit :: "store \<Rightarrow> nat \<Rightarrow> nat \<Rightarrow> bool" where
  "subbit raw chan off = bit (raw (chan + 2 * (off div 32))) (31 - off mod 32)"

text \<open>
  The data byte carried by the eight symbols that start at sub-bit \<open>off\<close>: the symbol
  number \<open>7 - n\<close> carries bit \<open>n\<close> in its middle sub-bit.
\<close>

definition emitted_byte :: "store \<Rightarrow> nat \<Rightarrow> nat \<Rightarrow> u8" where
  "emitted_byte raw chan off =
     horner_sum of_bool 2 (map (\<lambda>n. subbit raw chan (off + 3 * (7 - n) + 1)) [0 ..< 8])"

text \<open>Where the first sub-bit of a channel lands in its stream.\<close>

definition chan1_start :: "ws2811_t \<Rightarrow> nat" where
  "chan1_start ws = (72 * nat (count (channel ws 0))) mod 32"

definition chan_start :: "ws2811_t \<Rightarrow> nat \<Rightarrow> nat" where
  "chan_start ws c = (if c = 0 then 0 else chan1_start ws)"

text \<open>Writing one sub-bit, and a list of sub-bits, at a stream offset.\<close>

definition put :: "nat \<Rightarrow> nat \<Rightarrow> bool \<Rightarrow> store \<Rightarrow> store" where
  "put chan off b raw =
     (let wp = chan + 2 * (off div 32); bp = 31 - off mod 32
      in raw(wp := (if b then set_bit bp (raw wp) else unset_bit bp (raw wp))))"

fun emit :: "bool list \<Rightarrow> nat \<Rightarrow> nat \<Rightarrow> store \<Rightarrow> store" where
  "emit [] chan off raw = raw"
| "emit (b # bs) chan off raw = emit bs chan (Suc off) (put chan off b raw)"

definition cur :: "nat \<Rightarrow> nat \<Rightarrow> nat \<times> int" where
  "cur chan off = (chan + 2 * (off div 32), 31 - int (off mod 32))"

text \<open>The sub-bits of a symbol, a byte, an LED and a channel, in the order of the loops.\<close>

definition symbol_bits :: "u8 \<Rightarrow> bool list" where
  "symbol_bits sy = [bit sy 2, bit sy 1, bit sy 0]"

definition byte_bits :: "int \<Rightarrow> u8 \<Rightarrow> bool list" where
  "byte_bits invt c =
     concat (map (\<lambda>k. symbol_bits (encode_symbol invt c k)) [7, 6, 5, 4, 3, 2, 1, 0])"

definition led_bits :: "int \<Rightarrow> u32 \<Rightarrow> bool list" where
  "led_bits invt led = concat (map (byte_bits invt) (led_color led))"

definition channel_bits :: "ws2811_channel_t \<Rightarrow> bool list" where
  "channel_bits ch =
     concat (map (\<lambda>i. led_bits (invert ch) (leds ch i)) [0 ..< nat (count ch)])"

text \<open>
  The configuration of the end-to-end example: channel 0 on pin 18 with one LED of the
  given colour, not inverted, channel 1 unused, at 800 kHz; and the all-zero buffer.
\<close>

definition single_led :: "u32 \<Rightarrow> ws2811_t" where
  "single_led color =
     \<lparr>freq = 800000, dmanum = 5,
      channel = (\<lambda>chan. if chan = 0
                   then \<lparr>gpionum = 18, invert = 0, count = 1, leds = (\<lambda>i. color)\<rparr>
                   else \<lparr>gpionum = 0, invert = 0, count = 0, leds = (\<lambda>i. 0)\<rparr>)\<rparr>"

definition zero_store :: store where
  "zero_store = (\<lambda>w. 0)"

text \<open>Two channels of one LED each, and a configuration with one channel inverted.\<close>

definition two_leds :: ws2811_t where
  "two_leds =
     \<lparr>freq = 800000, dmanum = 5,
      channel = (\<lambda>chan. if chan = 0
                   then \<lparr>gpionum = 18, invert = 0, count = 1, leds = (\<lambda>i. 0xFFFFFF)\<rparr>
                   else \<lparr>gpionum = 19, invert = 0, count = 1, leds = (\<lambda>i. 0x0000FF)\<rparr>)\<rparr>"

definition inverted :: "ws2811_t \<Rightarrow> nat \<Rightarrow> ws2811_t" where
  "inverted ws chan = ws\<lparr>channel := (channel ws)(chan := (channel ws chan)\<lparr>invert := 1\<rparr>)\<rparr>"

section \<open>Initialising the buffer (pwm_raw_init, lines 455-482)\<close>

text \<open>
  \<open>wordcount\<close> is the number of words of one channel; every round of the outer loop
  starts at word \<open>chan\<close> and steps by 2.  \<open>~0L\<close> stored into a 32-bit word is
  \<open>NOT 0\<close>.  Where \<open>PWM_BYTE_COUNT\<close> has no defined value the function has none.
\<close>

definition pwm_raw_init :: "ws2811_t \<Rightarrow> store \<Rightarrow> store option" where
  "pwm_raw_init ws raw =
     (let maxcount = max_channel_led_count ws
      in case PWM_BYTE_COUNT maxcount (freq ws) of
           None \<Rightarrow> None
         | Some byte_count \<Rightarrow>
             let wordcount = unat byte_count div 4 div RPI_PWM_CHANNELS
             in Some (fold (\<lambda>chan raw.
                        fst (fold (\<lambda>i (raw, wordpos).
                               (raw(wordpos := (if invert (channel ws chan) \<noteq> 0 then NOT 0 else 0)),
                                wordpos + 2))
                             [0 ..< wordcount] (raw, chan)))
                      [0 ..< RPI_PWM_CHANNELS] raw))"

text \<open>
  The number of 32-bit words of the buffer of \<open>PWM_BYTE_COUNT\<close> bytes that
  \<open>ws2811_init\<close> allocates (lines 577-579), and the idle word of a channel.
\<close>

definition buffer_words :: "ws2811_t \<Rightarrow> nat option" where
  "buffer_words ws =
     (case PWM_BYTE_COUNT (max_channel_led_count ws) (freq ws) of
        None \<Rightarrow> None
      | Some byte_count \<Rightarrow> Some (unat byte_count div 4))"

definition idle_word :: "ws2811_t \<Rightarrow> nat \<Rightarrow> u32" where
  "idle_word ws chan = (if invert (channel ws chan) \<noteq> 0 then NOT 0 else 0)"

section \<open>Waiting for the DMA engine (ws2811_wait, lines 654-671)\<close>

text \<open>
  Modelled from the spec: the masks \<open>RPI_DMA_CS_ACTIVE\<close> and \<open>RPI_DMA_CS_ERROR\<close> are
  declared in dma.h, which is not part of the sources at hand; the spec names them the
  active flag and the error flag of the DMA engine.  They are taken as bit 0 and bit 8
  of the control and status register; no proof below depends on the positions.
\<close>

definition RPI_DMA_CS_ACTIVE :: u32 where
  "RPI_DMA_CS_ACTIVE = push_bit 0 1"

definition RPI_DMA_CS_ERROR :: u32 where
  "RPI_DMA_CS_ERROR = push_bit 8 1"

text \<open>
  The register \<open>dma->cs\<close> is volatile: every read asks the hardware again.  The
  hardware is the sequence \<open>cs\<close> of the values it answers, and the state of the program
  is the number of reads made so far.  The loop condition reads the register for the
  active flag and, only when that is set, a second time for the error flag.  The loop
  may run for ever, so it is a partial function: \<open>None\<close> is "never returns".
\<close>

partial_function (option) wait_poll :: "(nat \<Rightarrow> u32) \<Rightarrow> nat \<Rightarrow> nat option" where
  "wait_poll cs n =
     (if cs n AND RPI_DMA_CS_ACTIVE \<noteq> 0 \<and> \<not> (cs (n + 1) AND RPI_DMA_CS_ERROR \<noteq> 0)
      then wait_poll cs (n + 2)
      else Some (if cs n AND RPI_DMA_CS_ACTIVE \<noteq> 0 then n + 2 else n + 1))"

text \<open>
  \<open>ws2811_wait\<close> returns the C return value (0 or -1) and the number of reads made;
  the read that decides the result is the last one.
\<close>

definition ws2811_wait :: "(nat \<Rightarrow> u32) \<Rightarrow> nat \<Rightarrow> (int \<times> nat) option" where
  "ws2811_wait cs n =
     (case wait_poll cs n of
        None \<Rightarrow> None
      | Some n' \<Rightarrow>
          if cs n' AND RPI_DMA_CS_ERROR \<noteq> 0 then Some (- 1, n' + 1) else Some (0, n' + 1))"

text \<open>
  The whole of \<open>ws2811_render\<close> (lines 681-755): encode, flush the cache up to the
  end of the buffer, which evaluates \<open>PWM_BYTE_COUNT(maxcount, ws2811->freq)\<close>, then
  wait for the previous transfer, then start the DMA engine unless the wait reported an
  error.  The result is the return value, the buffer and the number of reads of
  \<open>dma->cs\<close>; there is none where the byte count has no value or the wait does not
  return.
\<close>

definition ws2811_render ::
    "ws2811_t \<Rightarrow> (nat \<Rightarrow> u32) \<Rightarrow> nat \<Rightarrow> store \<Rightarrow> (int \<times> store \<times> nat) option" where
  "ws2811_render ws cs n raw =
     (let maxcount = max_channel_led_count ws;
          raw' = render_encode ws raw
      in case PWM_BYTE_COUNT maxcount (freq ws) of
           None \<Rightarrow> None
         | Some bytes \<Rightarrow>
             (case ws2811_wait cs n of
                None \<Rightarrow> None
              | Some (r, n') \<Rightarrow>
                  if r \<noteq> 0 then Some (- 1, raw', n') else Some (0, raw', n')))"

text \<open>
  Three hardware behaviours: always idle; busy for two polls, then an error; and active
  with the error flag in one read only, the second, and idle from the third read on.
\<close>

definition idle_dma :: "nat \<Rightarrow> u32" where
  "idle_dma i = 0"

definition busy_then_error :: "nat \<Rightarrow> u32" where
  "busy_then_error i = (if i < 5 then 1 else 0x101)"

definition glitch :: "nat \<Rightarrow> u32" where
  "glitch i = (if i = 0 then 1 else if i = 1 then 0x101 else 0)"

section \<open>Cleanup and shutdown (ws2811_cleanup, lines 491-523; ws2811_fini, lines 637-645)\<close>



























section \<open>The chain of DMA control blocks (setup_pwm, lines 350-385)\<close>

text \<open>
  Modelled from the spec: \<open>dma_cb_t\<close>, \<open>PAGE_SIZE\<close>, the transfer flags and the page
  list with \<open>dma_page_next\<close> are declared in dma.h and dma.c, which are not part of the
  sources at hand.  The spec gives a descriptor the fields source, destination, length,
  flags and next, and the pages "an ordered singly-linked sequence".  The page list is
  the list of the page addresses in that order; \<open>dma_page_next\<close> is its tail.  What the
  headers fix is a parameter: \<open>PAGE_SIZE\<close>, the flag word \<open>chain_ti\<close>, the bus address
  \<open>fif1_bus\<close> of the PWM FIFO and the address \<open>cb_addr k\<close> of the control block
  \<open>dma_cb + k\<close>.
\<close>

datatype init_error = AddressTranslation

record dma_cb_t =
  ti :: u32
  source_ad :: u32
  dest_ad :: u32
  txfr_len :: u32
  stride :: u32
  nextconbk :: u32

record dma_env =
  PAGE_SIZE :: int
  chain_ti :: u32
  fif1_bus :: u32
  cb_addr :: "nat \<Rightarrow> u32"

text \<open>
  \<open>addr_to_bus\<close> (lines 246-278): the page map answers the page frame number stored at
  the file offset \<open>addr >> 9\<close>, or nothing when it cannot be opened or read, which gives
  \<open>~0UL\<close>.
\<close>

type_synonym pagemap = "u32 \<Rightarrow> 64 word option"

definition addr_to_bus :: "pagemap \<Rightarrow> u32 \<Rightarrow> u32" where
  "addr_to_bus pm addr =
     (case pm (drop_bit 9 addr) of
        None \<Rightarrow> NOT 0
      | Some pfn \<Rightarrow> push_bit 12 (ucast pfn) OR 0x40000000 OR (addr AND 0xfff))"

text \<open>
  The loop of lines 351-382.  \<open>byte_count\<close> is an \<open>int32_t\<close>; \<open>k\<close> is the index of
  the control block \<open>dma_cb\<close> points to.  The result is that index and the control
  blocks, or the failure of the address translation (\<open>return -1\<close>).
\<close>

fun chain_loop ::
    "dma_env \<Rightarrow> pagemap \<Rightarrow> u32 list \<Rightarrow> int \<Rightarrow> nat \<Rightarrow> (nat \<Rightarrow> dma_cb_t) \<Rightarrow>
       init_error + nat \<times> (nat \<Rightarrow> dma_cb_t)" where
  "chain_loop env pm [] byte_count k cbs = Inr (k, cbs)"
| "chain_loop env pm (page # rest) byte_count k cbs =
     (if byte_count = 0 then Inr (k, cbs)
      else
        let page_bytes = (if PAGE_SIZE env < byte_count then PAGE_SIZE env else byte_count);
            src = addr_to_bus pm page
        in if src = NOT 0 then Inl AddressTranslation
           else
             let cbs' = cbs(k := (cbs k)\<lparr>ti := chain_ti env, source_ad := src,
                                         dest_ad := fif1_bus env,
                                         txfr_len := word_of_int page_bytes, stride := 0,
                                         nextconbk := addr_to_bus pm (cb_addr env (k + 1))\<rparr>);
                 byte_count' = byte_count - page_bytes
             in if rest = [] then Inr (k, cbs')
                else chain_loop env pm rest byte_count' (k + 1) cbs')"

text \<open>
  The loop and the termination of line 385.  \<open>byte_count\<close> is initialised with
  \<open>PWM_BYTE_COUNT(maxcount, ws2811->freq)\<close> (line 352), converted to \<open>int32_t\<close>; where
  that has no defined value the function has none (\<open>None\<close>).
\<close>

definition setup_pwm_chain ::
    "dma_env \<Rightarrow> pagemap \<Rightarrow> u32 list \<Rightarrow> int \<Rightarrow> u32 \<Rightarrow> (nat \<Rightarrow> dma_cb_t) \<Rightarrow>
       (init_error + nat \<times> (nat \<Rightarrow> dma_cb_t)) option" where
  "setup_pwm_chain env pm pages maxcount frq cbs =
     (case PWM_BYTE_COUNT maxcount frq of
        None \<Rightarrow> None
      | Some bytes \<Rightarrow>
          let byte_count = sint bytes
          in Some (case chain_loop env pm pages byte_count 0 cbs of
                     Inl e \<Rightarrow> Inl e
                   | Inr (k, cbs') \<Rightarrow> Inr (k, cbs'(k := (cbs' k)\<lparr>nextconbk := 0\<rparr>))))"

text \<open>
  An environment with pages of 4096 bytes, a page map that answers for every page, and
  control blocks that are all zero; and the lengths and next fields of the first
  control blocks of a result.
\<close>

definition example_env :: dma_env where
  "example_env =
     \<lparr>PAGE_SIZE = 4096, chain_ti = 0x4050148, fif1_bus = 0x7E20C018,
      cb_addr = (\<lambda>k. 0x20000 + 32 * of_nat k)\<rparr>"

definition example_pagemap :: pagemap where
  "example_pagemap off = Some (ucast (drop_bit 3 off))"

definition zero_cbs :: "nat \<Rightarrow> dma_cb_t" where
  "zero_cbs k = \<lparr>ti = 0, source_ad = 0, dest_ad = 0, txfr_len = 0, stride = 0, nextconbk = 0\<rparr>"

definition chain_summary ::
    "(init_error + nat \<times> (nat \<Rightarrow> dma_cb_t)) option \<Rightarrow> nat \<Rightarrow> (nat \<times> (u32 \<times> u32) list) option" where
  "chain_summary r n =
     (case r of
        None \<Rightarrow> None
      | Some (Inl e) \<Rightarrow> None
      | Some (Inr (k, cbs)) \<Rightarrow>
          Some (k, map (\<lambda>i. (txfr_len (cbs i), nextconbk (cbs i))) [0 ..< n]))"
section \<open>Facts about the buffer size\<close>

lemma and_not_7: "(w :: u32) AND NOT 7 = push_bit 3 (drop_bit 3 w)"
proof -
  have "NOT (7 :: u32) = NOT (mask 3)" by (simp add: mask_eq_exp_minus_1)
  then have "w AND NOT 7 = w AND NOT (mask 3)" by (simp only:)
  also have "\<dots> = push_bit 3 (drop_bit 3 w)"
    by (rule bit_eqI) (auto simp: bit_and_iff bit_not_iff bit_mask_iff bit_push_bit_iff bit_drop_bit_eq not_less)
  finally show ?thesis .
qed

lemma unat_and_not_7: "unat ((w :: u32) AND NOT 7) = unat w div 8 * 8"
proof -
  have lt: "unat w < 2 ^ 32" using unsigned_less [of w] by simp
  have d: "unat (drop_bit 3 w) = unat w div 8" by (simp add: unat_drop_bit_eq drop_bit_eq_div unat_div)
  have "unat (push_bit 3 (drop_bit 3 w)) = unat (drop_bit 3 w) * 8 mod 2 ^ 32"
    by (simp add: push_bit_eq_mult unat_word_ariths)
  also have "\<dots> = unat w div 8 * 8" using lt by (simp add: d)
  finally show ?thesis by (simp only: and_not_7)
qed

lemma LED_BIT_COUNT_iff:
  "LED_BIT_COUNT n f = Some b \<longleftrightarrow>
     INT_MIN \<le> 72 * n \<and> 72 * n \<le> INT_MAX \<and> b = word_of_int (72 * n) + reset_gap f"
  by (auto simp: LED_BIT_COUNT_def int_mul_def INT_MIN_def INT_MAX_def reset_gap_def
        mult.commute split: option.splits if_splits)

lemma PWM_BYTE_COUNT_iff:
  "PWM_BYTE_COUNT n f = Some b \<longleftrightarrow>
     INT_MIN \<le> 72 * n \<and> 72 * n \<le> INT_MAX \<and>
     b = ((drop_bit 3 (word_of_int (72 * n) + reset_gap f) AND NOT 7) + 8) * 2"
proof -
  have "PWM_BYTE_COUNT n f = Some b \<longleftrightarrow>
      (\<exists>bits. LED_BIT_COUNT n f = Some bits \<and> b = ((drop_bit 3 bits AND NOT 7) + 8) * 2)"
    by (auto simp: PWM_BYTE_COUNT_def RPI_PWM_CHANNELS_def split: option.splits)
  then show ?thesis by (simp only: LED_BIT_COUNT_iff) blast
qed

lemma reset_gap_less: "unat (reset_gap f) < 4295"
proof -
  have "unat (reset_gap f) = unat (LED_RESET_uS * (f * 3)) div 1000000"
    by (simp add: reset_gap_def unat_div)
  moreover have "unat (LED_RESET_uS * (f * 3)) < 2 ^ 32"
    using unsigned_less [of "LED_RESET_uS * (f * 3)"] by simp
  ultimately show ?thesis by simp
qed

lemma PBC_unat:
  assumes "0 \<le> n" "72 * n \<le> INT_MAX"
  shows "\<exists>b. PWM_BYTE_COUNT n f = Some b \<and>
           unat b = ((72 * nat n + unat (reset_gap f)) div 8 div 8 * 8 + 8) * 2"
proof -
  let ?g = "reset_gap f"
  let ?b = "72 * nat n + unat ?g"
  let ?bits = "(word_of_int (72 * n) :: u32) + ?g"
  let ?w = "drop_bit 3 ?bits AND NOT 7"
  have g: "unat ?g < 4295" by (rule reset_gap_less)
  have n: "72 * nat n \<le> 2147483647" using assms by (simp add: INT_MAX_def)
  have "(word_of_int (72 * n) :: u32) = of_nat (72 * nat n)"
    using assms(1) by (simp add: of_nat_nat)
  then have n72: "unat (word_of_int (72 * n) :: u32) = 72 * nat n"
    using n by (simp only: unat_of_nat) simp
  have "unat ?bits = (unat (word_of_int (72 * n) :: u32) + unat ?g) mod 2 ^ LENGTH(32)"
    by (rule unat_word_ariths)
  then have "unat ?bits = ?b mod 2 ^ LENGTH(32)" by (simp only: n72)
  then have bits: "unat ?bits = ?b" using n g by simp
  have "unat (drop_bit 3 w) = unat w div 8" for w :: u32
    by (simp add: unat_drop_bit_eq drop_bit_eq_div unat_div)
  then have d: "unat (drop_bit 3 ?bits) = ?b div 8"
    by (simp only: bits)
  have a: "unat ?w = ?b div 8 div 8 * 8"
    by (simp only: unat_and_not_7 d)
  have small: "?b div 8 div 8 * 8 + 8 < 2 ^ 31" using n g by simp
  have "unat (?w + 8) = (unat ?w + 8) mod 2 ^ 32"
    by (simp only: unat_word_ariths) simp
  then have p: "unat (?w + 8) = ?b div 8 div 8 * 8 + 8"
    using small by (simp only: a) simp
  have "unat ((?w + 8) * 2) = unat (?w + 8) * 2 mod 2 ^ 32"
    by (simp only: unat_word_ariths) simp
  then have u: "unat ((?w + 8) * 2) = (?b div 8 div 8 * 8 + 8) * 2"
    using small by (simp only: p) simp
  have "INT_MIN \<le> 72 * n" using assms(1) by (simp add: INT_MIN_def)
  then have "PWM_BYTE_COUNT n f = Some ((?w + 8) * 2)"
    using assms(2) by (simp only: PWM_BYTE_COUNT_iff; simp)
  with u show ?thesis by blast
qed

lemma dvd16_unat: "16 dvd unat (16 * (x :: u32))"
proof -
  have "unat (16 * x) = unat (16 :: u32) * unat x mod 2 ^ LENGTH(32)"
    by (rule unat_word_ariths)
  then have "unat (16 * x) = (16 * unat x) mod 4294967296" by simp
  moreover have "(16::nat) dvd (16 * unat x) mod 4294967296"
    by (simp add: dvd_mod)
  ultimately show ?thesis by (simp only:)
qed

lemma PBC_dvd:
  assumes "PWM_BYTE_COUNT n f = Some b"
  shows "16 dvd unat b"
proof -
  let ?w = "drop_bit 3 (word_of_int (72 * n) + reset_gap f) :: u32"
  from assms have "b = ((?w AND NOT 7) + 8) * 2" by (simp only: PWM_BYTE_COUNT_iff)
  then have "b = (push_bit 3 (drop_bit 3 ?w) + 8) * 2" by (simp only: and_not_7)
  also have "\<dots> = 16 * (drop_bit 3 ?w + 1)" by (simp add: push_bit_eq_mult algebra_simps)
  finally have e: "b = 16 * (drop_bit 3 ?w + 1)" .
  show ?thesis by (simp only: e dvd16_unat)
qed

lemma PBC_mono:
  assumes "0 \<le> n" "n \<le> n'"
    and "PWM_BYTE_COUNT n f = Some b" "PWM_BYTE_COUNT n' f = Some b'"
  shows "b \<le> b'"
proof -
  from assms(4) have m': "72 * n' \<le> INT_MAX" by (simp only: PWM_BYTE_COUNT_iff)
  with assms(2) have m: "72 * n \<le> INT_MAX" by simp
  from assms(1,2) have p': "0 \<le> n'" by simp
  have a: "unat b = ((72 * nat n + unat (reset_gap f)) div 8 div 8 * 8 + 8) * 2"
    using PBC_unat [OF assms(1) m, of f] assms(3) by auto
  have b: "unat b' = ((72 * nat n' + unat (reset_gap f)) div 8 div 8 * 8 + 8) * 2"
    using PBC_unat [OF p' m', of f] assms(4) by auto
  have "nat n \<le> nat n'" using assms(2) by simp
  then have "(72 * nat n + unat (reset_gap f)) div 8 div 8 \<le> (72 * nat n' + unat (reset_gap f)) div 8 div 8"
    by (intro div_le_mono) simp
  then show ?thesis by (simp add: word_le_nat_alt a b)
qed

lemma max_channel_led_count_nonneg: "0 \<le> max_channel_led_count ws"
  by (simp add: max_channel_led_count_def RPI_PWM_CHANNELS_def upt_rec)



section \<open>The renderer writes the sub-bit lists\<close>

lemma clear_bit_eq: "(w :: u32) AND NOT (push_bit n 1) = unset_bit n w"
  by (rule bit_eqI) (auto simp: bit_and_iff bit_not_iff bit_push_bit_iff bit_unset_bit_iff bit_1_iff bit_exp_iff)

lemma clear_set_bit_eq: "unset_bit n (w :: u32) OR push_bit n 1 = set_bit n w"
  by (rule bit_eqI) (auto simp: bit_and_iff bit_or_iff bit_unset_bit_iff bit_push_bit_iff bit_set_bit_iff bit_1_iff bit_exp_iff)

lemma test_bit_eq: "((s :: u8) AND push_bit l 1 \<noteq> 0) = bit s l"
  by (metis bit_iff_and_push_bit_not_eq_0)

lemma cur_Suc: "cur chan (Suc off) =
  (if off mod 32 = 31 then (chan + 2 * (off div 32) + 2, 31) else (chan + 2 * (off div 32), 31 - int (off mod 32) - 1))"
  by (simp add: cur_def mod_Suc div_Suc)

lemma render_subbit_put:
  "render_subbit sy l (raw, cur chan off) = (put chan off (bit sy l) raw, cur chan (Suc off))"
proof -
  have n: "nat (31 - int (off mod 32)) = 31 - off mod 32" by simp
  have z: "(31 - int (off mod 32) - 1 < 0) = (off mod 32 = 31)"
  proof -
    have "off mod 32 < 32" by simp
    then show ?thesis by linarith
  qed
  show ?thesis
    unfolding cur_Suc
    by (simp only: render_subbit_def cur_def put_def Let_def prod.case n z test_bit_eq
          clear_bit_eq clear_set_bit_eq split: if_splits) simp
qed


lemma fold_symbol:
  "fold (render_subbit sy) [2, 1, 0] (raw, cur chan off) = (emit (symbol_bits sy) chan off raw, cur chan (off + 3))"
  by (simp add: render_subbit_put symbol_bits_def numeral_3_eq_3)


lemma emit_append:
  "emit (xs @ ys) chan off raw = emit ys chan (off + length xs) (emit xs chan off raw)"
  by (induction xs arbitrary: off raw) simp_all

lemma fold_emit:
  assumes "\<And>x raw off. f x (raw, cur chan off) = (emit (g x) chan off raw, cur chan (off + length (g x)))"
  shows "fold f xs (raw, cur chan off) =
           (emit (concat (map g xs)) chan off raw, cur chan (off + length (concat (map g xs))))"
proof (induction xs arbitrary: raw off)
  case Nil
  show ?case by simp
next
  case (Cons x xs)
  show ?case by (simp add: assms Cons.IH emit_append add.assoc)
qed

lemma length_symbol_bits: "length (symbol_bits sy) = 3"
  by (simp add: symbol_bits_def)

lemma length_byte_bits: "length (byte_bits invt c) = 24"
  by (simp add: byte_bits_def length_symbol_bits)

lemma length_led_bits: "length (led_bits invt led) = 72"
  by (simp add: led_bits_def led_color_def length_byte_bits)

lemma length_channel_bits: "length (channel_bits ch) = 72 * nat (count ch)"
  by (simp add: channel_bits_def length_concat comp_def length_led_bits sum_list_triv)

lemma render_bit_emit:
  "render_bit invt c k (raw, cur chan off) =
     (emit (symbol_bits (encode_symbol invt c k)) chan off raw,
      cur chan (off + length (symbol_bits (encode_symbol invt c k))))"
  by (simp only: render_bit_def fold_symbol length_symbol_bits)

lemma fold_byte:
  "fold (render_bit invt c) [7, 6, 5, 4, 3, 2, 1, 0] (raw, cur chan off) =
     (emit (byte_bits invt c) chan off raw, cur chan (off + length (byte_bits invt c)))"
  unfolding byte_bits_def by (rule fold_emit) (rule render_bit_emit)

lemma render_led_emit:
  "render_led invt led (raw, cur chan off) =
     (emit (led_bits invt led) chan off raw, cur chan (off + length (led_bits invt led)))"
proof -
  have m: "map (\<lambda>j. byte_bits invt (led_color led ! j)) [0 ..< length (led_color led)]
             = map (byte_bits invt) (led_color led)"
    by (rule nth_equalityI) simp_all
  have "fold (\<lambda>j. fold (render_bit invt (led_color led ! j)) [7, 6, 5, 4, 3, 2, 1, 0])
          [0 ..< length (led_color led)] (raw, cur chan off) =
        (emit (concat (map (\<lambda>j. byte_bits invt (led_color led ! j)) [0 ..< length (led_color led)])) chan off raw,
         cur chan (off + length (concat (map (\<lambda>j. byte_bits invt (led_color led ! j)) [0 ..< length (led_color led)]))))"
    by (rule fold_emit) (rule fold_byte)
  then show ?thesis
    by (simp only: render_led_def Let_def led_bits_def m)
qed

lemma fold_leds:
  "fold (\<lambda>i. render_led (invert ch) (leds ch i)) [0 ..< nat (count ch)] (raw, cur chan off) =
     (emit (channel_bits ch) chan off raw, cur chan (off + length (channel_bits ch)))"
  unfolding channel_bits_def by (rule fold_emit) (rule render_led_emit)

lemma render_channel_emit:
  assumes "s < 32"
  shows "render_channel ch chan (raw, 31 - int s) =
           (emit (channel_bits ch) chan s raw, 31 - int ((s + 72 * nat (count ch)) mod 32))"
proof -
  have c: "(chan, 31 - int s) = cur chan s" using assms by (simp add: cur_def)
  show ?thesis
    by (simp only: render_channel_def prod.case Let_def c fold_leds length_channel_bits)
       (simp add: cur_def)
qed


lemma cell_eq_iff:
  fixes off o' c chan :: nat
  assumes "c < 2" "chan < 2"
  shows "(chan + 2 * (off div 32) = c + 2 * (o' div 32) \<and> 31 - off mod 32 = 31 - o' mod 32)
           = (c = chan \<and> o' = off)"
proof
  assume h: "chan + 2 * (off div 32) = c + 2 * (o' div 32) \<and> 31 - off mod 32 = 31 - o' mod 32"
  define a a' m m' where "a = off div 32" and "a' = o' div 32" and "m = off mod 32" and "m' = o' mod 32"
  have lt: "m < 32" "m' < 32" by (simp_all add: m_def m'_def)
  have e: "off = 32 * a + m" "o' = 32 * a' + m'" by (simp_all add: a_def a'_def m_def m'_def)
  from h have "chan + 2 * a = c + 2 * a'" "31 - m = 31 - m'"
    by (simp_all add: a_def a'_def m_def m'_def)
  with assms lt have "chan = c" "a = a'" "m = m'" by arith+
  with e show "c = chan \<and> o' = off" by simp
next
  assume "c = chan \<and> o' = off"
  then show "chan + 2 * (off div 32) = c + 2 * (o' div 32) \<and> 31 - off mod 32 = 31 - o' mod 32"
    by simp
qed

lemma subbit_put:
  assumes "c < 2" "chan < 2"
  shows "subbit (put chan off b raw) c o' = (if c = chan \<and> o' = off then b else subbit raw c o')"
proof -
  let ?wp = "chan + 2 * (off div 32)" and ?bp = "31 - off mod 32" and ?bp' = "31 - o' mod 32"
  have p: "put chan off b raw ?wp = (if b then set_bit ?bp (raw ?wp) else unset_bit ?bp (raw ?wp))"
    by (simp add: put_def Let_def)
  show ?thesis
  proof (cases "?wp = c + 2 * (o' div 32)")
    case False
    then have n: "\<not> (c = chan \<and> o' = off)" by auto
    from False have "put chan off b raw (c + 2 * (o' div 32)) = raw (c + 2 * (o' div 32))"
      by (simp add: put_def Let_def)
    then show ?thesis by (simp only: if_not_P [OF n] subbit_def)
  next
    case True
    have s1: "subbit (put chan off b raw) c o' = bit (put chan off b raw ?wp) ?bp'"
      by (simp only: subbit_def True [symmetric])
    have s2: "subbit raw c o' = bit (raw ?wp) ?bp'"
      by (simp only: subbit_def True [symmetric])
    show ?thesis
    proof (cases "?bp = ?bp'")
      case same: True
      with True have ceq: "c = chan \<and> o' = off" using cell_eq_iff [OF assms] by blast
      have "?bp < 32" by simp
      then have "bit (put chan off b raw ?wp) ?bp = b"
        by (simp add: p bit_set_bit_iff bit_unset_bit_iff)
      then have "subbit (put chan off b raw) chan off = b"
        by (simp only: subbit_def)
      with ceq show ?thesis by simp
    next
      case False
      then have n: "\<not> (c = chan \<and> o' = off)" by auto
      have "bit (put chan off b raw ?wp) ?bp' = bit (raw ?wp) ?bp'"
        using False by (simp add: p bit_set_bit_iff bit_unset_bit_iff)
      then show ?thesis by (simp only: if_not_P [OF n] s1 s2)
    qed
  qed
qed

lemma subbit_emit:
  assumes "c < 2" "chan < 2"
  shows "subbit (emit bs chan off raw) c o' =
           (if c = chan \<and> off \<le> o' \<and> o' < off + length bs then bs ! (o' - off) else subbit raw c o')"
proof (induction bs arbitrary: off raw)
  case Nil
  show ?case by auto
next
  case (Cons b bs)
  have step: "subbit (emit (b # bs) chan off raw) c o' =
      (if c = chan \<and> Suc off \<le> o' \<and> o' < Suc off + length bs then bs ! (o' - Suc off)
       else if c = chan \<and> o' = off then b else subbit raw c o')"
    by (simp only: emit.simps Cons.IH subbit_put [OF assms])
  show ?case
  proof (cases "c = chan \<and> off \<le> o' \<and> o' < off + length (b # bs)")
    case False
    then show ?thesis unfolding step by auto
  next
    case True
    show ?thesis
    proof (cases "o' = off")
      case True
      with \<open>c = chan \<and> off \<le> o' \<and> o' < off + length (b # bs)\<close> show ?thesis
        unfolding step by simp
    next
      case False
      with True have "Suc off \<le> o'" "o' - off = Suc (o' - Suc off)" by auto
      with True show ?thesis unfolding step by simp
    qed
  qed
qed

lemma bit_as_subbit:
  assumes "i < 32"
  shows "bit (raw w) i = subbit raw (w mod 2) (32 * (w div 2) + (31 - i))"
proof -
  have "(32 * (w div 2) + (31 - i)) div 32 = w div 2" by simp
  moreover have "(32 * (w div 2) + (31 - i)) mod 32 = 31 - i" by simp
  moreover have "31 - (31 - i) = i" using assms by simp
  ultimately show ?thesis by (simp only: subbit_def) simp
qed


lemma render_encode_emit:
  "render_encode ws raw =
     emit (channel_bits (channel ws 1)) 1 (chan1_start ws)
       (emit (channel_bits (channel ws 0)) 0 0 raw)"
proof -
  have u: "[0 ..< RPI_PWM_CHANNELS] = [0, 1]" by (simp add: RPI_PWM_CHANNELS_def upt_rec)
  have a: "render_channel (channel ws 0) 0 (raw, 31) =
       (emit (channel_bits (channel ws 0)) 0 0 raw, 31 - int (chan1_start ws))"
    using render_channel_emit [of 0 "channel ws 0" 0 raw] by (simp add: chan1_start_def)
  have b: "render_channel (channel ws 1) 1 (raw', 31 - int (chan1_start ws)) =
       (emit (channel_bits (channel ws 1)) 1 (chan1_start ws) raw',
        31 - int ((chan1_start ws + 72 * nat (count (channel ws 1))) mod 32))" for raw'
    by (rule render_channel_emit) (simp add: chan1_start_def)
  show ?thesis by (simp only: render_encode_def u fold_simps o_apply id_apply a b fst_conv)
qed

lemma concat_blocks_nth:
  assumes "\<And>x. x \<in> set xs \<Longrightarrow> length x = m" "i < length xs" "j < m"
  shows "concat xs ! (i * m + j) = xs ! i ! j"
  using assms
proof (induction xs arbitrary: i)
  case Nil
  then show ?case by simp
next
  case (Cons x xs)
  have lx: "length x = m" using Cons.prems(1) by simp
  show ?case
  proof (cases i)
    case 0
    with Cons.prems lx show ?thesis by (simp add: nth_append)
  next
    case (Suc i')
    have "concat xs ! (i' * m + j) = xs ! i' ! j"
      using Cons.prems Suc by (intro Cons.IH) simp_all
    with Suc lx show ?thesis by (simp add: nth_append)
  qed
qed

lemma byte_bits_nth:
  assumes "k < 8" "l < 3"
  shows "byte_bits invt c ! (k * 3 + l) = symbol_bits (encode_symbol invt c (7 - k)) ! l"
proof -
  let ?ks = "[7, 6, 5, 4, 3, 2, 1, 0] :: nat list"
  have n: "?ks ! k = 7 - k" using assms(1)
    by (auto simp: less_Suc_eq numeral_Bit1 numeral_Bit0 nth_Cons split: nat.splits)
  have "concat (map (\<lambda>k. symbol_bits (encode_symbol invt c k)) ?ks) ! (k * 3 + l)
          = map (\<lambda>k. symbol_bits (encode_symbol invt c k)) ?ks ! k ! l"
    using assms by (intro concat_blocks_nth) (auto simp: length_symbol_bits)
  also have "\<dots> = symbol_bits (encode_symbol invt c (?ks ! k)) ! l"
    using assms(1) by (subst nth_map) simp_all
  finally show ?thesis by (simp only: byte_bits_def n)
qed

lemma led_bits_nth:
  assumes "j < 3" "m < 24"
  shows "led_bits invt led ! (j * 24 + m) = byte_bits invt (led_color led ! j) ! m"
proof -
  have l: "length (led_color led) = 3" by (simp add: led_color_def)
  have "concat (map (byte_bits invt) (led_color led)) ! (j * 24 + m)
          = map (byte_bits invt) (led_color led) ! j ! m"
    using assms l by (intro concat_blocks_nth) (auto simp: length_byte_bits)
  then show ?thesis using assms l by (simp add: led_bits_def)
qed

lemma channel_bits_nth:
  assumes "i < nat (count ch)" "m < 72"
  shows "channel_bits ch ! (i * 72 + m) = led_bits (invert ch) (leds ch i) ! m"
proof -
  have "concat (map (\<lambda>i. led_bits (invert ch) (leds ch i)) [0 ..< nat (count ch)]) ! (i * 72 + m)
          = map (\<lambda>i. led_bits (invert ch) (leds ch i)) [0 ..< nat (count ch)] ! i ! m"
    using assms by (intro concat_blocks_nth) (auto simp: length_led_bits)
  then show ?thesis using assms by (simp add: channel_bits_def)
qed

lemma subbit_render:
  assumes "c < 2"
  shows "subbit (render_encode ws raw) c o' =
     (if chan_start ws c \<le> o' \<and> o' < chan_start ws c + 72 * nat (count (channel ws c))
      then channel_bits (channel ws c) ! (o' - chan_start ws c)
      else subbit raw c o')"
proof -
  have o1: "(1::nat) < 2" and o0: "(0::nat) < 2" by simp_all
  let ?mid = "emit (channel_bits (channel ws 0)) 0 0 raw"
  from assms have "c = 0 \<or> c = 1" by auto
  then show ?thesis
  proof
    assume c: "c = 0"
    have "subbit (render_encode ws raw) 0 o' = subbit ?mid 0 o'"
      by (simp only: render_encode_emit subbit_emit [OF o0 o1]) simp
    also have "\<dots> = (if o' < 72 * nat (count (channel ws 0))
         then channel_bits (channel ws 0) ! o' else subbit raw 0 o')"
      by (simp only: subbit_emit [OF o0 o0] length_channel_bits) simp
    finally show ?thesis by (simp add: c chan_start_def)
  next
    assume c: "c = 1"
    have "subbit (render_encode ws raw) 1 o' =
        (if chan1_start ws \<le> o' \<and> o' < chan1_start ws + 72 * nat (count (channel ws 1))
         then channel_bits (channel ws 1) ! (o' - chan1_start ws) else subbit ?mid 1 o')"
      by (simp only: render_encode_emit subbit_emit [OF o1 o1] length_channel_bits) simp
    also have "subbit ?mid 1 o' = subbit raw 1 o'"
      by (simp only: subbit_emit [OF o1 o0]) simp
    finally show ?thesis by (simp only: c chan_start_def) simp
  qed
qed

lemma symbol_bits_encode:
  "symbol_bits (encode_symbol invt c k) =
     (if invt \<noteq> 0 then [False, \<not> bit c k, True] else [True, bit c k, False])"
  unfolding encode_symbol_def test_bit_eq
  by (simp add: symbol_bits_def SYMBOL_HIGH_def SYMBOL_LOW_def Let_def)

lemma render_subbit_at:
  assumes "c < 2" "i < nat (count (channel ws c))" "j < 3" "k < 8" "l < 3"
  shows "subbit (render_encode ws raw) c (chan_start ws c + i * 72 + j * 24 + k * 3 + l) =
           symbol_bits (encode_symbol (invert (channel ws c))
             (led_color (leds (channel ws c) i) ! j) (7 - k)) ! l"
proof -
  let ?ch = "channel ws c"
  have m: "k * 3 + l < 24" using assms by simp
  have m': "j * 24 + (k * 3 + l) < 72" using assms by simp
  have r: "chan_start ws c + i * 72 + j * 24 + k * 3 + l < chan_start ws c + 72 * nat (count ?ch)"
  proof -
    have "Suc i \<le> nat (count ?ch)" using assms(2) by simp
    then have "72 * Suc i \<le> 72 * nat (count ?ch)" by (rule mult_le_mono2)
    with m' show ?thesis by simp
  qed
  have "subbit (render_encode ws raw) c (chan_start ws c + i * 72 + j * 24 + k * 3 + l) =
          channel_bits ?ch ! (i * 72 + (j * 24 + (k * 3 + l)))"
    using r by (simp add: subbit_render [OF assms(1)] add.assoc)
  also have "\<dots> = led_bits (invert ?ch) (leds ?ch i) ! (j * 24 + (k * 3 + l))"
    using assms(2) m' by (rule channel_bits_nth)
  also have "\<dots> = byte_bits (invert ?ch) (led_color (leds ?ch i) ! j) ! (k * 3 + l)"
    using assms(3) m by (rule led_bits_nth)
  also have "\<dots> = symbol_bits (encode_symbol (invert ?ch) (led_color (leds ?ch i) ! j) (7 - k)) ! l"
    using assms(4,5) by (rule byte_bits_nth)
  finally show ?thesis .
qed

lemma bit_emitted_byte:
  "bit (emitted_byte raw chan off) n = (n < 8 \<and> subbit raw chan (off + 3 * (7 - n) + 1))"
  by (auto simp add: emitted_byte_def bit_horner_sum_bit_word_iff)

lemma emitted_byte_render:
  assumes "c < 2" "i < nat (count (channel ws c))" "j < 3"
  shows "emitted_byte (render_encode ws raw) c (chan_start ws c + i * 72 + j * 24) =
           (if invert (channel ws c) \<noteq> 0 then NOT (led_color (leds (channel ws c) i) ! j)
            else led_color (leds (channel ws c) i) ! j)"
proof (rule bit_eqI)
  fix n
  assume "possible_bit TYPE(u8) n"
  then have n: "n < 8" by (simp add: possible_bit_def)
  then have k: "7 - n < 8" "7 - (7 - n) = n" by simp_all
  have "subbit (render_encode ws raw) c (chan_start ws c + i * 72 + j * 24 + (7 - n) * 3 + 1) =
           symbol_bits (encode_symbol (invert (channel ws c))
             (led_color (leds (channel ws c) i) ! j) (7 - (7 - n))) ! 1"
    using assms k(1) by (intro render_subbit_at) simp_all
  then show "bit (emitted_byte (render_encode ws raw) c (chan_start ws c + i * 72 + j * 24)) n
      = bit (if invert (channel ws c) \<noteq> 0 then NOT (led_color (leds (channel ws c) i) ! j)
            else led_color (leds (channel ws c) i) ! j) n"
    using n by (simp add: bit_emitted_byte k(2) symbol_bits_encode mult.commute bit_not_iff)
qed

lemma offset_decomp:
  fixes m :: nat
  shows "m = (m div 72) * 72 + ((m mod 72) div 24) * 24 + ((m mod 24) div 3) * 3 + m mod 3"
proof -
  have a: "m mod 72 mod 24 = m mod 24" by (simp add: mod_mod_cancel)
  have b: "m mod 24 mod 3 = m mod 3" by (simp add: mod_mod_cancel)
  have "m = (m div 72) * 72 + m mod 72" by simp
  also have "m mod 72 = ((m mod 72) div 24) * 24 + m mod 72 mod 24" by simp
  also have "m mod 72 mod 24 = m mod 24" by (rule a)
  also have "m mod 24 = ((m mod 24) div 3) * 3 + m mod 24 mod 3" by simp
  also have "m mod 24 mod 3 = m mod 3" by (rule b)
  finally show ?thesis by (simp add: add.assoc)
qed

lemma render_subbit_decomp:
  assumes "c < 2" "m < 72 * nat (count (channel ws c))"
  shows "subbit (render_encode ws raw) c (chan_start ws c + m) =
           symbol_bits (encode_symbol (invert (channel ws c))
             (led_color (leds (channel ws c) (m div 72)) ! ((m mod 72) div 24))
             (7 - (m mod 24) div 3)) ! (m mod 3)"
proof -
  have i: "m div 72 < nat (count (channel ws c))" using assms(2) by (simp add: div_less_iff_less_mult mult.commute)
  have j: "(m mod 72) div 24 < 3" by (simp add: div_less_iff_less_mult)
  have k: "(m mod 24) div 3 < 8" by (simp add: div_less_iff_less_mult)
  have l: "m mod 3 < 3" by simp
  have "subbit (render_encode ws raw) c
          (chan_start ws c + (m div 72) * 72 + ((m mod 72) div 24) * 24 + ((m mod 24) div 3) * 3 + m mod 3) =
        symbol_bits (encode_symbol (invert (channel ws c))
             (led_color (leds (channel ws c) (m div 72)) ! ((m mod 72) div 24))
             (7 - (m mod 24) div 3)) ! (m mod 3)"
    using assms(1) i j k l by (rule render_subbit_at)
  moreover have "chan_start ws c + (m div 72) * 72 + ((m mod 72) div 24) * 24 + ((m mod 24) div 3) * 3 + m mod 3
      = chan_start ws c + m"
    using offset_decomp [of m] by simp
  ultimately show ?thesis by (simp only:)
qed

lemma put_other_word: "w \<noteq> chan + 2 * (off div 32) \<Longrightarrow> put chan off b raw w = raw w"
  by (simp add: put_def Let_def)

lemma emit_other_parity:
  assumes "w mod 2 \<noteq> chan mod 2"
  shows "emit bs chan off raw w = raw w"
proof (induction bs arbitrary: off raw)
  case Nil
  show ?case by simp
next
  case (Cons b bs)
  have "w \<noteq> chan + 2 * (off div 32)" using assms by auto
  then show ?case by (simp add: Cons.IH put_other_word)
qed


section \<open>Further facts about the rendered stream\<close>

lemma single_led_facts:
  "count (channel (single_led color) 0) = 1"
  "invert (channel (single_led color) 0) = 0"
  "leds (channel (single_led color) 0) i = color"
  "chan_start (single_led color) 0 = 0"
  by (simp_all add: single_led_def chan_start_def)

lemma led_color_010203: "led_color 0x010203 = [0x02, 0x01, 0x03]"
  by (simp add: led_color_def)

lemma replicate_blocks_nth:
  assumes "m < 72"
  shows "concat (replicate 24 [a, b, c]) ! m = [a, b, c] ! (m mod 3)"
proof -
  have "concat (replicate 24 [a, b, c]) ! ((m div 3) * 3 + m mod 3) =
          replicate 24 [a, b, c] ! (m div 3) ! (m mod 3)"
    using assms by (intro concat_blocks_nth) (auto simp: div_less_iff_less_mult)
  moreover have "m div 3 < 24" using assms by (simp add: div_less_iff_less_mult)
  ultimately show ?thesis by simp
qed

lemma single_color_stream:
  assumes "count (channel ws 0) = 1" "invert (channel ws 0) = 0"
    and "\<And>j k. j < 3 \<Longrightarrow> k < 8 \<Longrightarrow> bit (led_color (leds (channel ws 0) 0) ! j) k = b"
  shows "map (subbit (render_encode ws raw) 0) [0 ..< 72] = concat (replicate 24 [True, b, False])"
proof (rule nth_equalityI)
  show "length (map (subbit (render_encode ws raw) 0) [0 ..< 72]) =
          length (concat (replicate 24 [True, b, False]))"
    by (simp add: length_concat sum_list_replicate)
next
  fix m
  assume "m < length (map (subbit (render_encode ws raw) 0) [0 ..< 72])"
  then have m: "m < 72" by simp
  have z: "m div 72 = 0" "m mod 72 = m" using m by simp_all
  have j: "m div 24 < 3" using m by (simp add: div_less_iff_less_mult)
  have k: "7 - m mod 24 div 3 < 8" by simp
  have "subbit (render_encode ws raw) 0 (chan_start ws 0 + m) =
          symbol_bits (encode_symbol (invert (channel ws 0))
             (led_color (leds (channel ws 0) (m div 72)) ! ((m mod 72) div 24))
             (7 - (m mod 24) div 3)) ! (m mod 3)"
    using m assms(1) by (intro render_subbit_decomp) simp_all
  also have "\<dots> = [True, b, False] ! (m mod 3)"
    by (simp only: z assms(2) symbol_bits_encode assms(3) [OF j k]) simp
  finally have "subbit (render_encode ws raw) 0 m = [True, b, False] ! (m mod 3)"
    by (simp add: chan_start_def)
  then show "map (subbit (render_encode ws raw) 0) [0 ..< 72] ! m =
          concat (replicate 24 [True, b, False]) ! m"
    using m by (simp add: replicate_blocks_nth)
qed

lemma led_color_black: "j < 3 \<Longrightarrow> bit (led_color 0 ! j) k = False"
  by (simp add: led_color_def nth_Cons split: nat.splits)

lemma led_color_white: "j < 3 \<Longrightarrow> k < 8 \<Longrightarrow> bit (led_color 0xFFFFFF ! j) k = True"
proof -
  assume j: "j < 3" and k: "k < 8"
  have "led_color 0xFFFFFF = [0xFF, 0xFF, 0xFF]" by (simp add: led_color_def)
  moreover have "[0xFF, 0xFF, 0xFF :: u8] ! j = 0xFF" using j
    by (auto simp: less_Suc_eq numeral_3_eq_3)
  moreover have "(0xFF :: u8) = mask 8" by (simp add: mask_eq_exp_minus_1)
  ultimately show ?thesis using k by (simp only: bit_mask_iff) simp
qed

lemma put_same_parity:
  assumes "\<And>w. w mod 2 = chan mod 2 \<Longrightarrow> raw w = raw' w" "w mod 2 = chan mod 2"
  shows "put chan off b raw w = put chan off b raw' w"
proof -
  have "(chan + 2 * (off div 32)) mod 2 = chan mod 2" by simp
  then have "raw (chan + 2 * (off div 32)) = raw' (chan + 2 * (off div 32))" by (rule assms(1))
  then show ?thesis using assms(1) [OF assms(2)] by (simp add: put_def Let_def)
qed

lemma emit_same_parity:
  assumes "\<And>w. w mod 2 = chan mod 2 \<Longrightarrow> raw w = raw' w" "w mod 2 = chan mod 2"
  shows "emit bs chan off raw w = emit bs chan off raw' w"
  using assms
proof (induction bs arbitrary: off raw raw')
  case Nil
  then show ?case by simp
next
  case (Cons b bs)
  have "emit bs chan (Suc off) (put chan off b raw) w = emit bs chan (Suc off) (put chan off b raw') w"
  proof (rule Cons.IH)
    fix v assume "v mod 2 = chan mod 2"
    then show "put chan off b raw v = put chan off b raw' v"
      using Cons.prems(1) by (intro put_same_parity) simp_all
  next
    show "w mod 2 = chan mod 2" by (rule Cons.prems(2))
  qed
  then show ?case by simp
qed

lemma render_channel_other_parity:
  assumes "s < 32" "w mod 2 \<noteq> chan mod 2"
  shows "fst (render_channel ch chan (raw, 31 - int s)) w = raw w"
  by (simp add: render_channel_emit [OF assms(1)] emit_other_parity [OF assms(2)])

lemma render_channel0:
  "render_channel (channel ws 0) 0 (raw, 31) =
     (emit (channel_bits (channel ws 0)) 0 0 raw, 31 - int (chan1_start ws))"
  using render_channel_emit [of 0 "channel ws 0" 0 raw] by (simp add: chan1_start_def)

lemma chan1_start_less: "chan1_start ws < 32"
  by (simp add: chan1_start_def)

lemma render_encode_channels:
  "render_encode ws raw =
     fst (render_channel (channel ws 1) 1 (render_channel (channel ws 0) 0 (raw, 31)))"
  by (simp only: render_channel0 render_channel_emit [OF chan1_start_less] render_encode_emit fst_conv)

lemma chan1_start_le: "chan1_start ws \<le> 24"
proof -
  let ?n = "nat (count (channel ws 0))"
  have "(72 * ?n) mod 32 = (8 * (9 * ?n)) mod (8 * 4)" by simp
  also have "\<dots> = 8 * ((9 * ?n) mod 4)" by (simp only: mult_mod_right)
  also have "\<dots> \<le> 8 * 3"
  proof (rule mult_le_mono2)
    have "(9 * ?n) mod 4 < 4" by simp
    then show "(9 * ?n) mod 4 \<le> 3" by simp
  qed
  finally show ?thesis by (simp add: chan1_start_def)
qed

lemma bit_word1:
  assumes "i < 32"
  shows "bit (raw 1) i = subbit raw 1 (31 - i)"
  using bit_as_subbit [OF assms, of raw 1] by simp
section \<open>Facts about initialisation, waiting and cleanup\<close>

lemma fill_loop:
  "fold (\<lambda>i (raw, wordpos). (raw(wordpos := v), wordpos + 2)) [0 ..< n] (raw, c) =
     ((\<lambda>w. if c \<le> w \<and> w < c + 2 * n \<and> w mod 2 = c mod 2 then v else raw w), c + 2 * n)"
proof (induction n)
  case 0
  show ?case by (auto simp add: fun_eq_iff)
next
  case (Suc n)
  have "(\<lambda>w. if c \<le> w \<and> w < c + 2 * n \<and> w mod 2 = c mod 2 then v else raw w)(c + 2 * n := v)
      = (\<lambda>w. if c \<le> w \<and> w < c + 2 * Suc n \<and> w mod 2 = c mod 2 then v else raw w)"
    by (rule ext) (auto; presburger)
  moreover have "fold (\<lambda>i (raw, wordpos). (raw(wordpos := v), wordpos + 2)) [0 ..< Suc n] (raw, c) =
      (\<lambda>(raw, wordpos). (raw(wordpos := v), wordpos + 2))
        (fold (\<lambda>i (raw, wordpos). (raw(wordpos := v), wordpos + 2)) [0 ..< n] (raw, c))"
    by simp
  ultimately show ?case by (simp only: Suc.IH prod.case) simp
qed

lemma pwm_raw_init_defined:
  assumes "72 * max_channel_led_count ws \<le> INT_MAX"
  shows "\<exists>raw0 bw. pwm_raw_init ws raw = Some raw0 \<and> buffer_words ws = Some bw"
proof -
  have "0 \<le> max_channel_led_count ws" by (rule max_channel_led_count_nonneg)
  then obtain b where "PWM_BYTE_COUNT (max_channel_led_count ws) (freq ws) = Some b"
    using PBC_unat [OF _ assms] by blast
  then show ?thesis by (simp add: pwm_raw_init_def buffer_words_def Let_def)
qed

lemma pwm_raw_init_word:
  assumes "pwm_raw_init ws raw = Some raw0" "buffer_words ws = Some bw"
  shows "raw0 w = (if w < bw then idle_word ws (w mod 2) else raw w)"
proof -
  from assms(2) obtain b where b: "PWM_BYTE_COUNT (max_channel_led_count ws) (freq ws) = Some b"
    and bw: "bw = unat b div 4"
    by (auto simp: buffer_words_def split: option.splits)
  define n where "n = bw div 2"
  have u: "[0 ..< RPI_PWM_CHANNELS] = [0, 1]" by (simp add: RPI_PWM_CHANNELS_def upt_rec)
  have "16 dvd unat b" using b by (rule PBC_dvd)
  then have "4 dvd bw" unfolding bw by (auto simp: dvd_def)
  then have e: "bw = 2 * n" unfolding n_def by auto
  have wc: "unat b div 4 div RPI_PWM_CHANNELS = n"
    by (simp only: n_def bw RPI_PWM_CHANNELS_def)
  have "pwm_raw_init ws raw =
     Some (fst (fold (\<lambda>i (raw, wordpos). (raw(wordpos := idle_word ws 1), wordpos + 2)) [0 ..< n]
       (fst (fold (\<lambda>i (raw, wordpos). (raw(wordpos := idle_word ws 0), wordpos + 2)) [0 ..< n]
          (raw, 0)), 1)))"
    unfolding pwm_raw_init_def Let_def b option.case wc u
    by (simp only: fold_simps o_apply id_apply idle_word_def [symmetric])
  with assms(1) have "raw0 =
     fst (fold (\<lambda>i (raw, wordpos). (raw(wordpos := idle_word ws 1), wordpos + 2)) [0 ..< n]
       (fst (fold (\<lambda>i (raw, wordpos). (raw(wordpos := idle_word ws 0), wordpos + 2)) [0 ..< n]
          (raw, 0)), 1))"
    by simp
  then have "raw0 w =
      (if 1 \<le> w \<and> w < 1 + 2 * n \<and> w mod 2 = 1 mod 2 then idle_word ws 1
       else if 0 \<le> w \<and> w < 0 + 2 * n \<and> w mod 2 = 0 mod 2 then idle_word ws 0 else raw w)"
    by (simp only: fill_loop fst_conv)
  also have "\<dots> = (if w < 2 * n then idle_word ws (w mod 2) else raw w)"
    by (auto; presburger)
  finally show ?thesis by (simp only: e)
qed

lemma subbit_idle:
  assumes "c < 2" "pwm_raw_init ws raw = Some raw0" "buffer_words ws = Some bw"
    "c + 2 * (off div 32) < bw"
  shows "subbit raw0 c off = (invert (channel ws c) \<noteq> 0)"
proof -
  have m: "c mod 2 = c" using assms(1) by simp
  have "31 - off mod 32 < 32" by simp
  then show ?thesis
    using assms(4)
    by (simp add: subbit_def pwm_raw_init_word [OF assms(2,3)] m idle_word_def bit_not_iff)
qed

lemma render_keeps_beyond:
  assumes "c < 2" "count (channel f 0) = count (channel ws 0)"
    "count (channel f c) = count (channel ws c)"
    "chan_start ws c + 72 * nat (count (channel ws c)) \<le> off"
  shows "subbit (render_encode f raw) c off = subbit raw c off"
proof -
  have "chan_start f c = chan_start ws c"
    using assms(2) by (simp add: chan_start_def chan1_start_def)
  then show ?thesis using assms(3,4) by (simp add: subbit_render [OF assms(1)])
qed

lemma renders_keep_beyond:
  assumes "c < 2"
    "\<And>f. f \<in> set frames \<Longrightarrow>
        count (channel f 0) = count (channel ws 0) \<and> count (channel f c) = count (channel ws c)"
    "chan_start ws c + 72 * nat (count (channel ws c)) \<le> off"
  shows "subbit (fold render_encode frames raw) c off = subbit raw c off"
  using assms(2)
proof (induction frames arbitrary: raw)
  case Nil
  show ?case by simp
next
  case (Cons f frames)
  have "subbit (fold render_encode frames (render_encode f raw)) c off =
          subbit (render_encode f raw) c off"
    using Cons.prems by (intro Cons.IH) simp
  also have "\<dots> = subbit raw c off"
    using Cons.prems [of f] assms(1,3) by (intro render_keeps_beyond) simp_all
  finally show ?case by simp
qed

lemma wait_poll_advances:
  assumes "wait_poll cs n = Some m"
  shows "n < m"
proof (rule wait_poll.raw_induct [where P = "\<lambda>cs n m. n < m", OF _ assms])
  fix poll :: "(nat \<Rightarrow> u32) \<Rightarrow> nat \<Rightarrow> nat option" and cs n m
  assume IH: "\<And>cs n y. poll cs n = Some y \<Longrightarrow> n < y"
    and eq: "(if cs n AND RPI_DMA_CS_ACTIVE \<noteq> 0 \<and> \<not> (cs (n + 1) AND RPI_DMA_CS_ERROR \<noteq> 0)
      then poll cs (n + 2)
      else Some (if cs n AND RPI_DMA_CS_ACTIVE \<noteq> 0 then n + 2 else n + 1)) = Some m"
  show "n < m"
  proof (cases "cs n AND RPI_DMA_CS_ACTIVE \<noteq> 0 \<and> \<not> (cs (n + 1) AND RPI_DMA_CS_ERROR \<noteq> 0)")
    case True
    with eq have "poll cs (n + 2) = Some m" by simp
    then have "n + 2 < m" by (rule IH)
    then show ?thesis by simp
  next
    case False
    with eq show ?thesis by (auto split: if_splits)
  qed
qed

lemma wait_poll_returns:
  assumes "cs (n + 2 * k) AND RPI_DMA_CS_ACTIVE = 0 \<or> cs (n + 2 * k + 1) AND RPI_DMA_CS_ERROR \<noteq> 0"
  shows "\<exists>m. wait_poll cs n = Some m \<and> m \<le> n + 2 * k + 2"
  using assms
proof (induction k arbitrary: n)
  case 0
  then show ?case by (subst wait_poll.simps) auto
next
  case (Suc k)
  show ?case
  proof (cases "cs n AND RPI_DMA_CS_ACTIVE \<noteq> 0 \<and> \<not> (cs (n + 1) AND RPI_DMA_CS_ERROR \<noteq> 0)")
    case True
    have "cs (n + 2 + 2 * k) AND RPI_DMA_CS_ACTIVE = 0 \<or>
          cs (n + 2 + 2 * k + 1) AND RPI_DMA_CS_ERROR \<noteq> 0"
      using Suc.prems by (simp add: add.commute add.left_commute)
    then obtain m where "wait_poll cs (n + 2) = Some m \<and> m \<le> n + 2 + 2 * k + 2"
      using Suc.IH [of "n + 2"] by blast
    with True show ?thesis by (subst wait_poll.simps) simp
  next
    case False
    then show ?thesis by (subst wait_poll.simps) auto
  qed
qed

text \<open>
  How the loop ends: after \<open>j\<close> polls that found the engine active and no error, either
  the first read of the next poll finds the active flag clear, or it finds it set and
  the second read finds the error flag set.
\<close>

lemma wait_poll_exit:
  assumes "wait_poll cs n = Some m"
  shows "\<exists>j. (\<forall>i < j. cs (n + 2 * i) AND RPI_DMA_CS_ACTIVE \<noteq> 0 \<and>
                        cs (n + 2 * i + 1) AND RPI_DMA_CS_ERROR = 0) \<and>
             (cs (n + 2 * j) AND RPI_DMA_CS_ACTIVE = 0 \<and> m = n + 2 * j + 1 \<or>
              cs (n + 2 * j) AND RPI_DMA_CS_ACTIVE \<noteq> 0 \<and>
              cs (n + 2 * j + 1) AND RPI_DMA_CS_ERROR \<noteq> 0 \<and> m = n + 2 * j + 2)"
proof (rule wait_poll.raw_induct [where P = "\<lambda>cs n m.
    \<exists>j. (\<forall>i < j. cs (n + 2 * i) AND RPI_DMA_CS_ACTIVE \<noteq> 0 \<and>
                   cs (n + 2 * i + 1) AND RPI_DMA_CS_ERROR = 0) \<and>
        (cs (n + 2 * j) AND RPI_DMA_CS_ACTIVE = 0 \<and> m = n + 2 * j + 1 \<or>
         cs (n + 2 * j) AND RPI_DMA_CS_ACTIVE \<noteq> 0 \<and>
         cs (n + 2 * j + 1) AND RPI_DMA_CS_ERROR \<noteq> 0 \<and> m = n + 2 * j + 2)", OF _ assms])
  fix poll :: "(nat \<Rightarrow> u32) \<Rightarrow> nat \<Rightarrow> nat option" and cs n m
  assume IH: "\<And>cs n y. poll cs n = Some y \<Longrightarrow>
      \<exists>j. (\<forall>i < j. cs (n + 2 * i) AND RPI_DMA_CS_ACTIVE \<noteq> 0 \<and>
                     cs (n + 2 * i + 1) AND RPI_DMA_CS_ERROR = 0) \<and>
          (cs (n + 2 * j) AND RPI_DMA_CS_ACTIVE = 0 \<and> y = n + 2 * j + 1 \<or>
           cs (n + 2 * j) AND RPI_DMA_CS_ACTIVE \<noteq> 0 \<and>
           cs (n + 2 * j + 1) AND RPI_DMA_CS_ERROR \<noteq> 0 \<and> y = n + 2 * j + 2)"
    and eq: "(if cs n AND RPI_DMA_CS_ACTIVE \<noteq> 0 \<and> \<not> (cs (n + 1) AND RPI_DMA_CS_ERROR \<noteq> 0)
      then poll cs (n + 2)
      else Some (if cs n AND RPI_DMA_CS_ACTIVE \<noteq> 0 then n + 2 else n + 1)) = Some m"
  let ?A = "\<lambda>i. cs i AND RPI_DMA_CS_ACTIVE \<noteq> 0"
  let ?E = "\<lambda>i. cs i AND RPI_DMA_CS_ERROR \<noteq> 0"
  show "\<exists>j. (\<forall>i < j. cs (n + 2 * i) AND RPI_DMA_CS_ACTIVE \<noteq> 0 \<and>
                     cs (n + 2 * i + 1) AND RPI_DMA_CS_ERROR = 0) \<and>
          (cs (n + 2 * j) AND RPI_DMA_CS_ACTIVE = 0 \<and> m = n + 2 * j + 1 \<or>
           cs (n + 2 * j) AND RPI_DMA_CS_ACTIVE \<noteq> 0 \<and>
           cs (n + 2 * j + 1) AND RPI_DMA_CS_ERROR \<noteq> 0 \<and> m = n + 2 * j + 2)"
  proof (cases "?A n \<and> \<not> ?E (n + 1)")
    case True
    with eq have "poll cs (n + 2) = Some m" by simp
    from IH [OF this] obtain j where
      b: "\<forall>i < j. ?A (n + 2 + 2 * i) \<and> cs (n + 2 + 2 * i + 1) AND RPI_DMA_CS_ERROR = 0"
      and e: "cs (n + 2 + 2 * j) AND RPI_DMA_CS_ACTIVE = 0 \<and> m = n + 2 + 2 * j + 1 \<or>
           ?A (n + 2 + 2 * j) \<and> ?E (n + 2 + 2 * j + 1) \<and> m = n + 2 + 2 * j + 2"
      by blast
    have s: "n + 2 + 2 * i = n + 2 * Suc i" for i by simp
    have b': "?A (n + 2 * i) \<and> cs (n + 2 * i + 1) AND RPI_DMA_CS_ERROR = 0" if "i < Suc j" for i
    proof (cases i)
      case 0
      with True show ?thesis by simp
    next
      case (Suc i')
      with that have "i' < j" by simp
      with b have "?A (n + 2 + 2 * i') \<and> cs (n + 2 + 2 * i' + 1) AND RPI_DMA_CS_ERROR = 0"
        by blast
      then show ?thesis by (simp only: s Suc; simp)
    qed
    from e have e': "cs (n + 2 * Suc j) AND RPI_DMA_CS_ACTIVE = 0 \<and> m = n + 2 * Suc j + 1 \<or>
           ?A (n + 2 * Suc j) \<and> ?E (n + 2 * Suc j + 1) \<and> m = n + 2 * Suc j + 2"
      by (simp only: s)
    from b' e' show ?thesis by blast
  next
    case False
    with eq have m: "m = (if ?A n then n + 2 else n + 1)" by (auto split: if_splits)
    have "(\<forall>i < (0::nat). ?A (n + 2 * i) \<and> cs (n + 2 * i + 1) AND RPI_DMA_CS_ERROR = 0) \<and>
          (cs (n + 2 * 0) AND RPI_DMA_CS_ACTIVE = 0 \<and> m = n + 2 * 0 + 1 \<or>
           ?A (n + 2 * 0) \<and> ?E (n + 2 * 0 + 1) \<and> m = n + 2 * 0 + 2)"
      using False m by auto
    then show ?thesis by (rule exI)
  qed
qed





















lemma ws2811_wait_returns:
  assumes "cs (n + 2 * k) AND RPI_DMA_CS_ACTIVE = 0 \<or> cs (n + 2 * k + 1) AND RPI_DMA_CS_ERROR \<noteq> 0"
  shows "\<exists>w. ws2811_wait cs n = Some w"
proof -
  from assms obtain m where "wait_poll cs n = Some m" using wait_poll_returns by blast
  then show ?thesis by (simp add: ws2811_wait_def)
qed





lemma ws2811_render_buffer:
  assumes "ws2811_render ws cs n raw = Some (r, raw', n')"
  shows "raw' = render_encode ws raw"
  using assms by (auto simp add: ws2811_render_def Let_def split: option.splits if_splits)

lemma ws2811_render_returns:
  assumes "72 * max_channel_led_count ws \<le> INT_MAX"
    and "cs (n + 2 * k) AND RPI_DMA_CS_ACTIVE = 0 \<or> cs (n + 2 * k + 1) AND RPI_DMA_CS_ERROR \<noteq> 0"
  shows "\<exists>r n'. ws2811_render ws cs n raw = Some (r, render_encode ws raw, n')"
proof -
  have "0 \<le> max_channel_led_count ws" by (rule max_channel_led_count_nonneg)
  then obtain b where b: "PWM_BYTE_COUNT (max_channel_led_count ws) (freq ws) = Some b"
    using PBC_unat [OF _ assms(1)] by blast
  obtain r n' where w: "ws2811_wait cs n = Some (r, n')"
    using ws2811_wait_returns [OF assms(2)] by auto
  show ?thesis by (simp add: ws2811_render_def Let_def b w)
qed

section \<open>Facts about the chain of control blocks\<close>

text \<open>
  Two runs of the loop.  When the bytes do not run out before the last page, the loop
  leaves by \<open>break\<close> with \<open>dma_cb\<close> on the control block of the last page.  When the
  page list has more pages than the bytes need, the loop leaves at the test of
  \<open>byte_count\<close> after \<open>dma_cb++\<close>, with \<open>dma_cb\<close> behind the last control block it
  wrote.
\<close>

lemma chain_loop_step:
  assumes "byte_count \<noteq> 0" "addr_to_bus pm page \<noteq> NOT 0"
  shows "chain_loop env pm (page # rest) byte_count k cbs =
     (let page_bytes = (if PAGE_SIZE env < byte_count then PAGE_SIZE env else byte_count);
          cbs' = cbs(k := (cbs k)\<lparr>ti := chain_ti env, source_ad := addr_to_bus pm page,
                                         dest_ad := fif1_bus env,
                                         txfr_len := word_of_int page_bytes, stride := 0,
                                         nextconbk := addr_to_bus pm (cb_addr env (k + 1))\<rparr>)
      in if rest = [] then Inr (k, cbs')
         else chain_loop env pm rest (byte_count - page_bytes) (k + 1) cbs')"
  using assms by (simp add: Let_def)

lemma chain_loop_fits:
  assumes S: "0 < PAGE_SIZE env"
    and ok: "\<forall>p \<in> set pages. addr_to_bus pm p \<noteq> NOT 0"
    and ne: "pages \<noteq> []"
    and B: "(int (length pages) - 1) * PAGE_SIZE env < B"
  shows "\<exists>cbs'. chain_loop env pm pages B k cbs = Inr (k + length pages - 1, cbs') \<and>
           (\<forall>i < length pages.
              txfr_len (cbs' (k + i)) = word_of_int (min (PAGE_SIZE env) (B - int i * PAGE_SIZE env)) \<and>
              nextconbk (cbs' (k + i)) = addr_to_bus pm (cb_addr env (k + i + 1))) \<and>
           (\<forall>j. j < k \<or> k + length pages \<le> j \<longrightarrow> cbs' j = cbs j)"
  using ok ne B
proof (induction pages arbitrary: B k cbs)
  case Nil
  then show ?case by simp
next
  case (Cons page rest)
  let ?S = "PAGE_SIZE env"
  let ?pb = "if ?S < B then ?S else B"
  let ?cbs1 = "cbs(k := (cbs k)\<lparr>ti := chain_ti env, source_ad := addr_to_bus pm page,
                                         dest_ad := fif1_bus env,
                                         txfr_len := word_of_int ?pb, stride := 0,
                                         nextconbk := addr_to_bus pm (cb_addr env (k + 1))\<rparr>)"
  have Bpos: "0 < B"
  proof -
    have "0 \<le> (int (length (page # rest)) - 1) * ?S" using S by simp
    with Cons.prems(3) show ?thesis by linarith
  qed
  have tr: "addr_to_bus pm page \<noteq> NOT 0" using Cons.prems(1) by simp
  have step: "chain_loop env pm (page # rest) B k cbs =
       (if rest = [] then Inr (k, ?cbs1) else chain_loop env pm rest (B - ?pb) (k + 1) ?cbs1)"
  proof -
    have "B \<noteq> 0" using Bpos by simp
    from chain_loop_step [OF this tr, of env rest k cbs] show ?thesis
      by (simp only: Let_def)
  qed
  have pb: "?pb = min ?S B" by (simp add: min_def)
  show ?case
  proof (cases "rest = []")
    case True
    have res: "chain_loop env pm (page # rest) B k cbs = Inr (k + length (page # rest) - 1, ?cbs1)"
      by (subst step) (simp add: True)
    have wr: "\<forall>i < length (page # rest).
        txfr_len (?cbs1 (k + i)) = word_of_int (min ?S (B - int i * ?S)) \<and>
        nextconbk (?cbs1 (k + i)) = addr_to_bus pm (cb_addr env (k + i + 1))"
      using True by (simp add: pb)
    have frame: "\<forall>j. j < k \<or> k + length (page # rest) \<le> j \<longrightarrow> ?cbs1 j = cbs j"
      using True by auto
    from res wr frame show ?thesis by blast
  next
    case False
    then have len: "1 \<le> length rest" by (cases rest) simp_all
    have big: "?S < B"
    proof -
      have "1 * ?S \<le> int (length rest) * ?S" using len S by (intro mult_right_mono) simp_all
      with Cons.prems(3) show ?thesis by simp
    qed
    then have pbS: "?pb = ?S" by simp
    have B': "(int (length rest) - 1) * ?S < B - ?S"
      using Cons.prems(3) by (simp add: algebra_simps)
    have "\<exists>cbs'. chain_loop env pm rest (B - ?S) (k + 1) ?cbs1 =
              Inr (k + 1 + length rest - 1, cbs') \<and>
           (\<forall>i < length rest.
              txfr_len (cbs' (k + 1 + i)) = word_of_int (min ?S (B - ?S - int i * ?S)) \<and>
              nextconbk (cbs' (k + 1 + i)) = addr_to_bus pm (cb_addr env (k + 1 + i + 1))) \<and>
           (\<forall>j. j < k + 1 \<or> k + 1 + length rest \<le> j \<longrightarrow> cbs' j = ?cbs1 j)"
    proof (rule Cons.IH)
      show "\<forall>p \<in> set rest. addr_to_bus pm p \<noteq> NOT 0" using Cons.prems(1) by simp
      show "rest \<noteq> []" by (rule False)
      show "(int (length rest) - 1) * ?S < B - ?S" by (rule B')
    qed
    then obtain cbs' where r: "chain_loop env pm rest (B - ?S) (k + 1) ?cbs1 =
          Inr (k + 1 + length rest - 1, cbs')"
      and w0: "\<forall>i < length rest.
              txfr_len (cbs' (k + 1 + i)) = word_of_int (min ?S (B - ?S - int i * ?S)) \<and>
              nextconbk (cbs' (k + 1 + i)) = addr_to_bus pm (cb_addr env (k + 1 + i + 1))"
      and fr0: "\<forall>j. j < k + 1 \<or> k + 1 + length rest \<le> j \<longrightarrow> cbs' j = ?cbs1 j"
      by blast
    have w: "txfr_len (cbs' (k + 1 + i)) = word_of_int (min ?S (B - ?S - int i * ?S)) \<and>
              nextconbk (cbs' (k + 1 + i)) = addr_to_bus pm (cb_addr env (k + 1 + i + 1))"
      if "i < length rest" for i using w0 that by blast
    have fr: "cbs' j = ?cbs1 j" if "j < k + 1 \<or> k + 1 + length rest \<le> j" for j
      using fr0 that by blast
    have res: "chain_loop env pm (page # rest) B k cbs = Inr (k + length (page # rest) - 1, cbs')"
      using r big by (subst step) (simp add: False)
    have wr: "txfr_len (cbs' (k + i)) = word_of_int (min ?S (B - int i * ?S)) \<and>
              nextconbk (cbs' (k + i)) = addr_to_bus pm (cb_addr env (k + i + 1))"
      if "i < length (page # rest)" for i
    proof (cases i)
      case 0
      have "cbs' k = ?cbs1 k" by (rule fr) simp
      then show ?thesis using big 0 by (simp add: min_def)
    next
      case (Suc i')
      then have "i' < length rest" using that by simp
      from w [OF this] show ?thesis using Suc by (simp add: algebra_simps)
    qed
    have frame: "cbs' j = cbs j" if "j < k \<or> k + length (page # rest) \<le> j" for j
    proof -
      have "cbs' j = ?cbs1 j" using that by (intro fr) auto
      moreover have "j \<noteq> k" using that by auto
      ultimately show ?thesis by simp
    qed
    from res wr frame show ?thesis by blast
  qed
qed


lemma chain_loop_surplus:
  assumes S: "0 < PAGE_SIZE env"
    and ok: "\<forall>p \<in> set pages. addr_to_bus pm p \<noteq> NOT 0"
    and q: "1 \<le> q" "(int q - 1) * PAGE_SIZE env < B" "B \<le> int q * PAGE_SIZE env"
    and len: "q < length pages"
  shows "\<exists>cbs'. chain_loop env pm pages B k cbs = Inr (k + q, cbs') \<and>
           (\<forall>i < q.
              txfr_len (cbs' (k + i)) = word_of_int (min (PAGE_SIZE env) (B - int i * PAGE_SIZE env)) \<and>
              nextconbk (cbs' (k + i)) = addr_to_bus pm (cb_addr env (k + i + 1))) \<and>
           (\<forall>j. j < k \<or> k + q \<le> j \<longrightarrow> cbs' j = cbs j)"
  using ok q len
proof (induction pages arbitrary: B k cbs q)
  case Nil
  then show ?case by simp
next
  case (Cons page rest)
  let ?S = "PAGE_SIZE env"
  let ?pb = "if ?S < B then ?S else B"
  let ?cbs1 = "cbs(k := (cbs k)\<lparr>ti := chain_ti env, source_ad := addr_to_bus pm page,
                                         dest_ad := fif1_bus env,
                                         txfr_len := word_of_int ?pb, stride := 0,
                                         nextconbk := addr_to_bus pm (cb_addr env (k + 1))\<rparr>)"
  have Bpos: "0 < B"
  proof -
    have "0 \<le> (int q - 1) * ?S" using S Cons.prems(2) by simp
    with Cons.prems(3) show ?thesis by linarith
  qed
  have tr: "addr_to_bus pm page \<noteq> NOT 0" using Cons.prems(1) by simp
  have rest: "rest \<noteq> []" using Cons.prems(2,5) by auto
  have step: "chain_loop env pm (page # rest) B k cbs =
       chain_loop env pm rest (B - ?pb) (k + 1) ?cbs1"
  proof -
    have "B \<noteq> 0" using Bpos by simp
    from chain_loop_step [OF this tr, of env rest k cbs] rest show ?thesis
      by (simp only: Let_def if_False)
  qed
  have pb: "?pb = min ?S B" by (simp add: min_def)
  show ?case
  proof (cases "q = 1")
    case True
    then have "B \<le> ?S" using Cons.prems(4) by simp
    then have z: "B - ?pb = 0" by simp
    obtain p ps where ps: "rest = p # ps" using rest by (cases rest) auto
    have res: "chain_loop env pm (page # rest) B k cbs = Inr (k + q, ?cbs1)"
      by (subst step) (simp add: z ps True)
    have wr: "\<forall>i < q.
        txfr_len (?cbs1 (k + i)) = word_of_int (min ?S (B - int i * ?S)) \<and>
        nextconbk (?cbs1 (k + i)) = addr_to_bus pm (cb_addr env (k + i + 1))"
      using True by (simp add: pb)
    have frame: "\<forall>j. j < k \<or> k + q \<le> j \<longrightarrow> ?cbs1 j = cbs j"
      using True by auto
    from res wr frame show ?thesis by blast
  next
    case False
    then have q2: "2 \<le> q" using Cons.prems(2) by simp
    have big: "?S < B"
    proof -
      have "1 * ?S \<le> (int q - 1) * ?S" using q2 S by (intro mult_right_mono) simp_all
      with Cons.prems(3) show ?thesis by simp
    qed
    have "\<exists>cbs'. chain_loop env pm rest (B - ?S) (k + 1) ?cbs1 = Inr (k + 1 + (q - 1), cbs') \<and>
           (\<forall>i < q - 1.
              txfr_len (cbs' (k + 1 + i)) = word_of_int (min ?S (B - ?S - int i * ?S)) \<and>
              nextconbk (cbs' (k + 1 + i)) = addr_to_bus pm (cb_addr env (k + 1 + i + 1))) \<and>
           (\<forall>j. j < k + 1 \<or> k + 1 + (q - 1) \<le> j \<longrightarrow> cbs' j = ?cbs1 j)"
    proof (rule Cons.IH)
      show "\<forall>p \<in> set rest. addr_to_bus pm p \<noteq> NOT 0" using Cons.prems(1) by simp
      show "1 \<le> q - 1" using q2 by simp
      show "(int (q - 1) - 1) * ?S < B - ?S"
        using Cons.prems(3) q2 by (simp add: algebra_simps of_nat_diff)
      show "B - ?S \<le> int (q - 1) * ?S"
        using Cons.prems(4) q2 by (simp add: algebra_simps of_nat_diff)
      show "q - 1 < length rest" using Cons.prems(5) q2 by simp
    qed
    then obtain cbs' where r: "chain_loop env pm rest (B - ?S) (k + 1) ?cbs1 =
          Inr (k + 1 + (q - 1), cbs')"
      and w0: "\<forall>i < q - 1.
              txfr_len (cbs' (k + 1 + i)) = word_of_int (min ?S (B - ?S - int i * ?S)) \<and>
              nextconbk (cbs' (k + 1 + i)) = addr_to_bus pm (cb_addr env (k + 1 + i + 1))"
      and fr0: "\<forall>j. j < k + 1 \<or> k + 1 + (q - 1) \<le> j \<longrightarrow> cbs' j = ?cbs1 j"
      by blast
    have res: "chain_loop env pm (page # rest) B k cbs = Inr (k + q, cbs')"
      using r big q2 by (subst step) simp
    have wr: "txfr_len (cbs' (k + i)) = word_of_int (min ?S (B - int i * ?S)) \<and>
              nextconbk (cbs' (k + i)) = addr_to_bus pm (cb_addr env (k + i + 1))"
      if "i < q" for i
    proof (cases i)
      case 0
      have "cbs' k = ?cbs1 k" using fr0 by simp
      then show ?thesis using big 0 by (simp add: min_def)
    next
      case (Suc i')
      then have "i' < q - 1" using that by simp
      with w0 show ?thesis using Suc by (simp add: algebra_simps)
    qed
    have frame: "cbs' j = cbs j" if "j < k \<or> k + q \<le> j" for j
    proof -
      have "j < k + 1 \<or> k + 1 + (q - 1) \<le> j" using that q2 by auto
      with fr0 have "cbs' j = ?cbs1 j" by blast
      moreover have "j \<noteq> k" using that q2 by auto
      ultimately show ?thesis by simp
    qed
    from res wr frame show ?thesis by blast
  qed
qed

lemma page_lengths_sum:
  fixes S B :: int
  assumes "(int n - 1) * S < B" "B \<le> int n * S" "1 \<le> n"
  shows "(\<Sum>i < n. min S (B - int i * S)) = B"
proof -
  obtain m where n: "n = Suc m" using assms(3) by (cases n) auto
  have S: "0 < S" using assms(1,2) by (simp add: algebra_simps)
  have "min S (B - int i * S) = S" if "i < m" for i
  proof -
    have "int (Suc i) * S \<le> int m * S" using that S by (intro mult_right_mono) simp_all
    with assms(1) n show ?thesis by (simp add: algebra_simps min_def)
  qed
  then have "(\<Sum>i < m. min S (B - int i * S)) = (\<Sum>i < m. S)" by (intro sum.cong) simp_all
  also have "\<dots> = int m * S" by simp
  finally have a: "(\<Sum>i < m. min S (B - int i * S)) = int m * S" .
  have b: "min S (B - int m * S) = B - int m * S" using assms(2) n by (simp add: algebra_simps min_def)
  show ?thesis by (simp add: n a b)
qed


lemma addr_to_bus_nonzero: "addr_to_bus pm addr \<noteq> 0"
proof (cases "pm (drop_bit 9 addr)")
  case None
  then show ?thesis by (simp add: addr_to_bus_def)
next
  case (Some pfn)
  let ?x = "push_bit 12 (ucast pfn) OR 0x40000000 OR (addr AND 0xfff) :: u32"
  have e: "(0x40000000 :: u32) = 2 ^ 30" by simp
  have "bit (2 ^ 30 :: u32) 30" by (simp only: bit_exp_iff) simp
  then have "bit ?x 30" by (simp only: bit_or_iff e) simp
  moreover have "\<not> bit (0 :: u32) 30" by simp
  ultimately have "?x \<noteq> 0" by metis
  with Some show ?thesis by (simp add: addr_to_bus_def)
qed

lemma setup_chain_exact:
  assumes "0 < PAGE_SIZE env" "\<forall>p \<in> set pages. addr_to_bus pm p \<noteq> NOT 0" "pages \<noteq> []"
    and "(int (length pages) - 1) * PAGE_SIZE env < sint bytes"
    and "PWM_BYTE_COUNT maxcount frq = Some bytes"
  shows "\<exists>cbs'. setup_pwm_chain env pm pages maxcount frq cbs =
                  Some (Inr (length pages - 1, cbs')) \<and>
           nextconbk (cbs' (length pages - 1)) = 0 \<and>
           (\<forall>i < length pages. txfr_len (cbs' i) =
              word_of_int (min (PAGE_SIZE env) (sint bytes - int i * PAGE_SIZE env))) \<and>
           (\<forall>i. i + 1 < length pages \<longrightarrow>
              nextconbk (cbs' i) = addr_to_bus pm (cb_addr env (i + 1)))"
proof -
  let ?B = "sint bytes"
  let ?n = "length pages"
  obtain c1 where r: "chain_loop env pm pages ?B 0 cbs = Inr (0 + ?n - 1, c1)"
    and w: "\<forall>i < ?n.
              txfr_len (c1 (0 + i)) = word_of_int (min (PAGE_SIZE env) (?B - int i * PAGE_SIZE env)) \<and>
              nextconbk (c1 (0 + i)) = addr_to_bus pm (cb_addr env (0 + i + 1))"
    using chain_loop_fits [OF assms(1-4), of 0 cbs] by blast
  let ?c2 = "c1(?n - 1 := (c1 (?n - 1))\<lparr>nextconbk := 0\<rparr>)"
  have s: "setup_pwm_chain env pm pages maxcount frq cbs = Some (Inr (?n - 1, ?c2))"
    by (simp add: setup_pwm_chain_def assms(5) r)
  have a: "nextconbk (?c2 (?n - 1)) = 0" by simp
  have b: "txfr_len (?c2 i) = word_of_int (min (PAGE_SIZE env) (?B - int i * PAGE_SIZE env))"
    if "i < ?n" for i using w that by simp
  have c: "nextconbk (?c2 i) = addr_to_bus pm (cb_addr env (i + 1))" if "i + 1 < ?n" for i
  proof -
    from that have "i \<noteq> ?n - 1" "i < ?n" by simp_all
    with w show ?thesis by simp
  qed
  from s a b c show ?thesis by blast
qed

lemma setup_chain_surplus:
  assumes "0 < PAGE_SIZE env" "\<forall>p \<in> set pages. addr_to_bus pm p \<noteq> NOT 0" "1 \<le> q"
    and "(int q - 1) * PAGE_SIZE env < sint bytes"
    and "sint bytes \<le> int q * PAGE_SIZE env"
    and "q < length pages"
    and "PWM_BYTE_COUNT maxcount frq = Some bytes"
  shows "\<exists>cbs'. setup_pwm_chain env pm pages maxcount frq cbs = Some (Inr (q, cbs')) \<and>
           (\<forall>i < q. txfr_len (cbs' i) =
              word_of_int (min (PAGE_SIZE env) (sint bytes - int i * PAGE_SIZE env)) \<and>
              nextconbk (cbs' i) = addr_to_bus pm (cb_addr env (i + 1)) \<and>
              nextconbk (cbs' i) \<noteq> 0) \<and>
           cbs' q = (cbs q)\<lparr>nextconbk := 0\<rparr>"
proof -
  let ?B = "sint bytes"
  obtain c1 where r: "chain_loop env pm pages ?B 0 cbs = Inr (0 + q, c1)"
    and w: "\<forall>i < q.
              txfr_len (c1 (0 + i)) = word_of_int (min (PAGE_SIZE env) (?B - int i * PAGE_SIZE env)) \<and>
              nextconbk (c1 (0 + i)) = addr_to_bus pm (cb_addr env (0 + i + 1))"
    and fr: "\<forall>j. j < 0 \<or> 0 + q \<le> j \<longrightarrow> c1 j = cbs j"
    using chain_loop_surplus [OF assms(1-6), of 0 cbs] by blast
  let ?c2 = "c1(q := (c1 q)\<lparr>nextconbk := 0\<rparr>)"
  have s: "setup_pwm_chain env pm pages maxcount frq cbs = Some (Inr (q, ?c2))"
    by (simp add: setup_pwm_chain_def assms(7) r)
  have b: "txfr_len (?c2 i) = word_of_int (min (PAGE_SIZE env) (?B - int i * PAGE_SIZE env)) \<and>
      nextconbk (?c2 i) = addr_to_bus pm (cb_addr env (i + 1)) \<and> nextconbk (?c2 i) \<noteq> 0"
    if "i < q" for i
  proof -
    from that have "i \<noteq> q" by simp
    with w that show ?thesis by (simp add: addr_to_bus_nonzero)
  qed
  have "c1 q = cbs q" using fr by simp
  then have c: "?c2 q = (cbs q)\<lparr>nextconbk := 0\<rparr>" by simp
  from s b c show ?thesis by blast
qed
section \<open>Claims about the buffer size\<close>

text \<open>
  C3: for every LED count \<open>n\<close> and frequency for which the macro has a value in C (the
  product \<open>n * 72\<close> fits an \<open>int\<close>), the byte count is the bit count
  \<open>n * 72 + (55 * (freq * 3)) / 1000000\<close> shifted right by 3, rounded down to a multiple
  of 8, plus 8, times the two PWM channels; it is a function of \<open>n\<close> and the frequency;
  it is a multiple of 4 (even of 16); for a count \<open>0 \<le> n\<close> it has that value in the
  natural numbers, with no wrap-around, and it is monotonic in the count.  The code
  applies the macro to \<open>max_channel_led_count\<close> only, which is never negative.
\<close>

theorem required_byte_count:
  "(PWM_BYTE_COUNT n f = Some b \<longleftrightarrow>
      INT_MIN \<le> 72 * n \<and> 72 * n \<le> INT_MAX \<and>
      b = ((drop_bit 3 (word_of_int (n * 72) + (55 * (f * 3)) div 1000000) AND NOT 7) + 8) * 2) \<and>
   (PWM_BYTE_COUNT n f = Some b \<longrightarrow> 4 dvd unat b \<and> 16 dvd unat b) \<and>
   (0 \<le> n \<and> 72 * n \<le> INT_MAX \<longrightarrow>
      (\<exists>c. PWM_BYTE_COUNT n f = Some c \<and>
           unat c = ((72 * nat n + unat (reset_gap f)) div 8 div 8 * 8 + 8) * 2)) \<and>
   (0 \<le> n \<and> n \<le> n' \<and> PWM_BYTE_COUNT n f = Some b \<and> PWM_BYTE_COUNT n' f = Some b' \<longrightarrow>
      b \<le> b') \<and>
   0 \<le> max_channel_led_count ws"
proof -
  have r: "reset_gap f = (55 * (f * 3)) div 1000000"
    by (simp add: reset_gap_def LED_RESET_uS_def)
  have f: "PWM_BYTE_COUNT n f = Some b \<longleftrightarrow>
      INT_MIN \<le> 72 * n \<and> 72 * n \<le> INT_MAX \<and>
      b = ((drop_bit 3 (word_of_int (n * 72) + (55 * (f * 3)) div 1000000) AND NOT 7) + 8) * 2"
    by (simp only: PWM_BYTE_COUNT_iff r mult.commute [of n 72])
  have d16: "16 dvd unat b" if "PWM_BYTE_COUNT n f = Some b" using that by (rule PBC_dvd)
  have "(4::nat) dvd 16" by simp
  then have d4: "4 dvd unat b" if "PWM_BYTE_COUNT n f = Some b"
    using d16 [OF that] by (rule dvd_trans)
  have v: "\<exists>c. PWM_BYTE_COUNT n f = Some c \<and>
           unat c = ((72 * nat n + unat (reset_gap f)) div 8 div 8 * 8 + 8) * 2"
    if "0 \<le> n \<and> 72 * n \<le> INT_MAX"
    using that PBC_unat [of n f] by blast
  have m: "b \<le> b'"
    if "0 \<le> n \<and> n \<le> n' \<and> PWM_BYTE_COUNT n f = Some b \<and> PWM_BYTE_COUNT n' f = Some b'"
    using that PBC_mono [of n n' f b b'] by blast
  have p: "0 \<le> max_channel_led_count ws" by (rule max_channel_led_count_nonneg)
  from f d4 d16 v m p show ?thesis by blast
qed

theorem required_byte_count_witness:
  "INT_MIN \<le> 72 * 1 \<and> (0::int) \<le> 1 \<and> (1::int) \<le> 2 \<and> 72 * 2 \<le> INT_MAX \<and>
   PWM_BYTE_COUNT 1 800000 = Some 64 \<and> PWM_BYTE_COUNT 2 800000 = Some 80 \<and>
   4 dvd unat (64 :: u32) \<and> (64 :: u32) \<le> 80 \<and>
   (\<exists>c. PWM_BYTE_COUNT 2 800000 = Some c \<and> unat c = 80)"
proof -
  have g: "reset_gap 800000 = 132" by (simp add: reset_gap_def LED_RESET_uS_def)
  have h: "INT_MIN \<le> 72 * 1" "(0::int) \<le> 1" "(1::int) \<le> 2" "72 * 2 \<le> INT_MAX"
    "(0::int) \<le> 2"
    by (simp_all add: INT_MIN_def INT_MAX_def)
  have a: "PWM_BYTE_COUNT 1 800000 = Some 64" "PWM_BYTE_COUNT 2 800000 = Some 80"
    by (simp_all add: PWM_BYTE_COUNT_def LED_BIT_COUNT_def int_mul_def INT_MIN_def INT_MAX_def
          LED_RESET_uS_def RPI_PWM_CHANNELS_def)
  note t = required_byte_count [where n = 1 and f = 800000 and b = 64 and n' = 2 and b' = 80]
  note u = required_byte_count [where n = 2 and f = 800000]
  from t a h have "4 dvd unat (64 :: u32) \<and> (64 :: u32) \<le> 80" by blast
  moreover from u h have "\<exists>c. PWM_BYTE_COUNT 2 800000 = Some c \<and>
      unat c = ((72 * nat 2 + unat (reset_gap 800000)) div 8 div 8 * 8 + 8) * 2"
    by blast
  then have "\<exists>c. PWM_BYTE_COUNT 2 800000 = Some c \<and> unat c = 80" by (simp add: g)
  ultimately show ?thesis using a h by blast
qed

section \<open>Claims about the renderer\<close>

text \<open>
  C1 (as stated): a single non-inverted LED of packed colour \<open>0x010203\<close> is emitted as
  the bytes \<open>0x01, 0x02, 0x03\<close>.  The first byte emitted is \<open>0x02\<close>: the packed
  value is read as red in bits 23-16, green in bits 15-8 and blue in bits 7-0, and green is
  sent first.
\<close>

theorem render_010203_not_in_packed_order:
  "map (emitted_byte (render_encode (single_led 0x010203) zero_store) 0) [0, 24, 48]
     \<noteq> [0x01, 0x02, 0x03]"
proof -
  have "emitted_byte (render_encode (single_led 0x010203) zero_store) 0
          (chan_start (single_led 0x010203) 0 + 0 * 72 + 0 * 24) = 0x02"
    by (subst emitted_byte_render) (simp_all add: single_led_facts led_color_010203)
  then show ?thesis by (simp add: single_led_facts)
qed

text \<open>
  C1 (amended): for a single-LED, non-inverted channel 0 the three bytes carried by the
  stream are, in emission order, green (bits 15-8 of the packed colour), red (bits 23-16)
  and blue (bits 7-0); for the packed colour \<open>0x010203\<close> they are
  \<open>0x02, 0x01, 0x03\<close>.
\<close>

theorem render_emits_green_red_blue:
  "count (channel ws 0) = 1 \<and> invert (channel ws 0) = 0 \<longrightarrow>
     map (emitted_byte (render_encode ws raw) 0) [0, 24, 48] =
       [ucast (drop_bit 8 (leds (channel ws 0) 0) AND 0xff),
        ucast (drop_bit 16 (leds (channel ws 0) 0) AND 0xff),
        ucast (leds (channel ws 0) 0 AND 0xff)] \<and>
     (leds (channel ws 0) 0 = 0x010203 \<longrightarrow>
        map (emitted_byte (render_encode ws raw) 0) [0, 24, 48] = [0x02, 0x01, 0x03])"
proof (intro impI)
  assume a: "count (channel ws 0) = 1 \<and> invert (channel ws 0) = 0"
  let ?led = "leds (channel ws 0) 0"
  have e: "emitted_byte (render_encode ws raw) 0 (chan_start ws 0 + 0 * 72 + j * 24) =
             led_color ?led ! j" if "j < 3" for j
    using that a by (subst emitted_byte_render) simp_all
  have s: "chan_start ws 0 = 0" by (simp add: chan_start_def)
  have "map (emitted_byte (render_encode ws raw) 0) [0, 24, 48] = led_color ?led"
    using e [of 0] e [of 1] e [of 2] by (simp add: s led_color_def)
  then show "map (emitted_byte (render_encode ws raw) 0) [0, 24, 48] =
       [ucast (drop_bit 8 ?led AND 0xff), ucast (drop_bit 16 ?led AND 0xff), ucast (?led AND 0xff)] \<and>
     (?led = 0x010203 \<longrightarrow>
        map (emitted_byte (render_encode ws raw) 0) [0, 24, 48] = [0x02, 0x01, 0x03])"
    by (auto simp add: led_color_def)
qed

theorem render_emits_green_red_blue_witness:
  "count (channel (single_led 0x010203) 0) = 1 \<and>
   invert (channel (single_led 0x010203) 0) = 0 \<and>
   leds (channel (single_led 0x010203) 0) 0 = 0x010203 \<and>
   map (emitted_byte (render_encode (single_led 0x010203) zero_store) 0) [0, 24, 48] =
     [0x02, 0x01, 0x03]"
  using render_emits_green_red_blue [of "single_led 0x010203" zero_store]
  by (simp add: single_led_facts)

text \<open>
  C2: on a non-inverted channel, the bit \<open>7 - k\<close> of byte \<open>j\<close> of LED \<open>i\<close> (bits taken
  from the most significant down) is rendered as the three sub-bits 1,1,0 when it is set
  and 1,0,0 when it is clear; a single LED of colour \<open>0x000000\<close> gives 72 sub-bits
  that repeat 1,0,0, and one of colour \<open>0xFFFFFF\<close> gives 72 sub-bits that repeat 1,1,0.
\<close>

theorem render_symbol_pattern:
  "(c < 2 \<and> invert (channel ws c) = 0 \<and> i < nat (count (channel ws c)) \<and> j < 3 \<and> k < 8 \<longrightarrow>
      map (subbit (render_encode ws raw) c)
        [chan_start ws c + i * 72 + j * 24 + k * 3 + 0,
         chan_start ws c + i * 72 + j * 24 + k * 3 + 1,
         chan_start ws c + i * 72 + j * 24 + k * 3 + 2] =
      (if bit (led_color (leds (channel ws c) i) ! j) (7 - k)
       then [True, True, False] else [True, False, False])) \<and>
   (count (channel ws 0) = 1 \<and> invert (channel ws 0) = 0 \<and> leds (channel ws 0) 0 = 0x000000 \<longrightarrow>
      map (subbit (render_encode ws raw) 0) [0 ..< 72] = concat (replicate 24 [True, False, False])) \<and>
   (count (channel ws 0) = 1 \<and> invert (channel ws 0) = 0 \<and> leds (channel ws 0) 0 = 0xFFFFFF \<longrightarrow>
      map (subbit (render_encode ws raw) 0) [0 ..< 72] = concat (replicate 24 [True, True, False]))"
proof (intro conjI impI)
  assume a: "c < 2 \<and> invert (channel ws c) = 0 \<and> i < nat (count (channel ws c)) \<and> j < 3 \<and> k < 8"
  have "subbit (render_encode ws raw) c (chan_start ws c + i * 72 + j * 24 + k * 3 + l) =
          [True, bit (led_color (leds (channel ws c) i) ! j) (7 - k), False] ! l" if "l < 3" for l
    using a that by (subst render_subbit_at) (simp_all add: symbol_bits_encode)
  from this [of 0] this [of 1] this [of 2]
  show "map (subbit (render_encode ws raw) c)
        [chan_start ws c + i * 72 + j * 24 + k * 3 + 0,
         chan_start ws c + i * 72 + j * 24 + k * 3 + 1,
         chan_start ws c + i * 72 + j * 24 + k * 3 + 2] =
      (if bit (led_color (leds (channel ws c) i) ! j) (7 - k)
       then [True, True, False] else [True, False, False])"
    by simp
next
  assume a: "count (channel ws 0) = 1 \<and> invert (channel ws 0) = 0 \<and> leds (channel ws 0) 0 = 0x000000"
  show "map (subbit (render_encode ws raw) 0) [0 ..< 72] = concat (replicate 24 [True, False, False])"
    using a by (intro single_color_stream) (simp_all add: led_color_black)
next
  assume a: "count (channel ws 0) = 1 \<and> invert (channel ws 0) = 0 \<and> leds (channel ws 0) 0 = 0xFFFFFF"
  show "map (subbit (render_encode ws raw) 0) [0 ..< 72] = concat (replicate 24 [True, True, False])"
    using a by (intro single_color_stream) (simp_all add: led_color_white)
qed

theorem render_symbol_pattern_witness:
  "(0::nat) < 2 \<and> invert (channel (single_led 0xFFFFFF) 0) = 0 \<and>
   (0::nat) < nat (count (channel (single_led 0xFFFFFF) 0)) \<and> (1::nat) < 3 \<and> (2::nat) < 8 \<and>
   count (channel (single_led 0xFFFFFF) 0) = 1 \<and>
   leds (channel (single_led 0xFFFFFF) 0) 0 = 0xFFFFFF \<and>
   map (subbit (render_encode (single_led 0xFFFFFF) zero_store) 0) [30, 31, 32] =
     [True, True, False] \<and>
   map (subbit (render_encode (single_led 0xFFFFFF) zero_store) 0) [0 ..< 72] =
     concat (replicate 24 [True, True, False]) \<and>
   count (channel (single_led 0x000000) 0) = 1 \<and>
   invert (channel (single_led 0x000000) 0) = 0 \<and>
   leds (channel (single_led 0x000000) 0) 0 = 0x000000 \<and>
   map (subbit (render_encode (single_led 0x000000) zero_store) 0) [0 ..< 72] =
     concat (replicate 24 [True, False, False])"
proof -
  have w: "bit (led_color 0xFFFFFF ! 1) (7 - 2)" by (simp add: led_color_white)
  show ?thesis
    using render_symbol_pattern [of 0 "single_led 0xFFFFFF" 0 1 2 zero_store]
      render_symbol_pattern [of 0 "single_led 0x000000" 0 1 2 zero_store] w
    by (simp add: single_led_facts)
qed

text \<open>
  C5: while a channel is encoded no word of the other parity is written; after the whole
  render every even word is what encoding channel 0 alone leaves there, and every odd
  word is what encoding channel 1 (from the bit position channel 0 left) leaves there.
\<close>

theorem render_word_interleaving:
  "(s < 32 \<and> w mod 2 \<noteq> chan mod 2 \<longrightarrow>
      fst (render_channel ch chan (raw, 31 - int s)) w = raw w) \<and>
   render_encode ws raw (2 * k) = fst (render_channel (channel ws 0) 0 (raw, 31)) (2 * k) \<and>
   render_encode ws raw (2 * k + 1) =
     fst (render_channel (channel ws 1) 1
            (raw, snd (render_channel (channel ws 0) 0 (raw, 31)))) (2 * k + 1)"
proof (intro conjI impI)
  assume "s < 32 \<and> w mod 2 \<noteq> chan mod 2"
  then show "fst (render_channel ch chan (raw, 31 - int s)) w = raw w"
    by (simp add: render_channel_other_parity)
next
  have "(2 * k) mod 2 \<noteq> (1::nat) mod 2" by simp
  then have "emit (channel_bits (channel ws 1)) 1 (chan1_start ws)
          (emit (channel_bits (channel ws 0)) 0 0 raw) (2 * k) =
        emit (channel_bits (channel ws 0)) 0 0 raw (2 * k)"
    by (rule emit_other_parity)
  then show "render_encode ws raw (2 * k) = fst (render_channel (channel ws 0) 0 (raw, 31)) (2 * k)"
    by (simp only: render_encode_emit render_channel0 fst_conv)
next
  have p: "(2 * k + 1) mod 2 \<noteq> (0::nat) mod 2" by simp
  let ?mid = "emit (channel_bits (channel ws 0)) 0 0 raw"
  have a: "fst (render_channel (channel ws 1) 1 (?mid, 31 - int (chan1_start ws))) (2 * k + 1)
         = emit (channel_bits (channel ws 1)) 1 (chan1_start ws) ?mid (2 * k + 1)"
    by (simp only: render_channel_emit [OF chan1_start_less] fst_conv)
  have b: "fst (render_channel (channel ws 1) 1 (raw, 31 - int (chan1_start ws))) (2 * k + 1)
         = emit (channel_bits (channel ws 1)) 1 (chan1_start ws) raw (2 * k + 1)"
    by (simp only: render_channel_emit [OF chan1_start_less] fst_conv)
  have "emit (channel_bits (channel ws 1)) 1 (chan1_start ws) ?mid (2 * k + 1) =
        emit (channel_bits (channel ws 1)) 1 (chan1_start ws) raw (2 * k + 1)"
  proof (rule emit_same_parity)
    fix v :: nat assume "v mod 2 = 1 mod 2"
    then have "v mod 2 \<noteq> (0::nat) mod 2" by simp
    then show "?mid v = raw v" by (rule emit_other_parity)
  next
    show "(2 * k + 1) mod 2 = (1::nat) mod 2" by simp
  qed
  then show "render_encode ws raw (2 * k + 1) =
     fst (render_channel (channel ws 1) 1
            (raw, snd (render_channel (channel ws 0) 0 (raw, 31)))) (2 * k + 1)"
    by (simp only: render_encode_emit render_channel0 snd_conv b)
qed

theorem render_word_interleaving_witness:
  "(0::nat) < 32 \<and> (1::nat) mod 2 \<noteq> (0::nat) mod 2 \<and>
   fst (render_channel (channel two_leds 0) 0 (zero_store, 31 - int 0)) 1 = zero_store 1 \<and>
   render_encode two_leds zero_store (2 * 1) =
     fst (render_channel (channel two_leds 0) 0 (zero_store, 31)) (2 * 1) \<and>
   render_encode two_leds zero_store (2 * 1 + 1) =
     fst (render_channel (channel two_leds 1) 1
            (zero_store, snd (render_channel (channel two_leds 0) 0 (zero_store, 31)))) (2 * 1 + 1)"
  using render_word_interleaving [where s = 0 and w = 1 and chan = 0 and ch = "channel two_leds 0"
      and raw = zero_store and ws = two_leds and k = 1]
  by simp

text \<open>
  C6: \<open>bitpos\<close> is set to 31 once and handed from channel 0 to channel 1, so after
  channel 0 it is \<open>31 - (72 * count0 mod 32)\<close>; the first symbol of channel 1 occupies
  that bit and the two below it in word 1, and the bits above it in word 1 are not
  written.
\<close>

theorem bitpos_carries_over:
  "snd (render_channel (channel ws 0) 0 (raw, 31)) =
     31 - int ((72 * nat (count (channel ws 0))) mod 32) \<and>
   render_encode ws raw =
     fst (render_channel (channel ws 1) 1 (render_channel (channel ws 0) 0 (raw, 31))) \<and>
   (0 < count (channel ws 1) \<longrightarrow>
      [bit (render_encode ws raw 1) (31 - (72 * nat (count (channel ws 0))) mod 32),
       bit (render_encode ws raw 1) (31 - (72 * nat (count (channel ws 0))) mod 32 - 1),
       bit (render_encode ws raw 1) (31 - (72 * nat (count (channel ws 0))) mod 32 - 2)] =
      symbol_bits (encode_symbol (invert (channel ws 1)) (led_color (leds (channel ws 1) 0) ! 0) 7)) \<and>
   (\<forall>i. 31 - (72 * nat (count (channel ws 0))) mod 32 < i \<and> i < 32 \<longrightarrow>
      bit (render_encode ws raw 1) i = bit (raw 1) i)"
proof (intro conjI impI allI)
  show "snd (render_channel (channel ws 0) 0 (raw, 31)) =
     31 - int ((72 * nat (count (channel ws 0))) mod 32)"
    by (simp add: render_channel0 chan1_start_def)
next
  show "render_encode ws raw =
     fst (render_channel (channel ws 1) 1 (render_channel (channel ws 0) 0 (raw, 31)))"
    by (rule render_encode_channels)
next
  assume c1: "0 < count (channel ws 1)"
  let ?s = "chan1_start ws"
  have s: "?s \<le> 24" by (rule chan1_start_le)
  have st: "chan_start ws 1 = ?s" by (simp add: chan_start_def)
  have sb: "subbit (render_encode ws raw) 1 (?s + l) =
       symbol_bits (encode_symbol (invert (channel ws 1)) (led_color (leds (channel ws 1) 0) ! 0) 7) ! l"
    if "l < 3" for l
  proof -
    have "subbit (render_encode ws raw) 1 (chan_start ws 1 + 0 * 72 + 0 * 24 + 0 * 3 + l) =
       symbol_bits (encode_symbol (invert (channel ws 1))
         (led_color (leds (channel ws 1) 0) ! 0) (7 - 0)) ! l"
      using c1 that by (intro render_subbit_at) simp_all
    then show ?thesis by (simp only: st) simp
  qed
  have b: "bit (render_encode ws raw 1) (31 - ?s - l) = subbit (render_encode ws raw) 1 (?s + l)"
    if "l < 3" for l
  proof -
    have e: "31 - (31 - ?s - l) = ?s + l" using s that by simp
    have "bit (render_encode ws raw 1) (31 - ?s - l) =
        subbit (render_encode ws raw) 1 (31 - (31 - ?s - l))"
      by (rule bit_word1) simp
    then show ?thesis by (simp only: e)
  qed
  have "[bit (render_encode ws raw 1) (31 - ?s - 0),
       bit (render_encode ws raw 1) (31 - ?s - 1),
       bit (render_encode ws raw 1) (31 - ?s - 2)] =
      symbol_bits (encode_symbol (invert (channel ws 1)) (led_color (leds (channel ws 1) 0) ! 0) 7)"
    by (simp only: b sb) (simp add: symbol_bits_def)
  then show "[bit (render_encode ws raw 1) (31 - (72 * nat (count (channel ws 0))) mod 32),
       bit (render_encode ws raw 1) (31 - (72 * nat (count (channel ws 0))) mod 32 - 1),
       bit (render_encode ws raw 1) (31 - (72 * nat (count (channel ws 0))) mod 32 - 2)] =
      symbol_bits (encode_symbol (invert (channel ws 1)) (led_color (leds (channel ws 1) 0) ! 0) 7)"
    by (simp add: chan1_start_def)
next
  fix i
  assume a: "31 - (72 * nat (count (channel ws 0))) mod 32 < i \<and> i < 32"
  then have lt: "31 - i < chan1_start ws" by (simp add: chan1_start_def) arith
  have "subbit (render_encode ws raw) 1 (31 - i) = subbit raw 1 (31 - i)"
    using lt by (simp add: subbit_render chan_start_def)
  moreover have "bit (render_encode ws raw 1) i = subbit (render_encode ws raw) 1 (31 - i)"
    using a by (intro bit_word1) simp
  moreover have "bit (raw 1) i = subbit raw 1 (31 - i)"
    using a by (intro bit_word1) simp
  ultimately show "bit (render_encode ws raw 1) i = bit (raw 1) i"
    by (simp only:)
qed

theorem bitpos_carries_over_witness:
  "0 < count (channel two_leds 1) \<and>
   31 - (72 * nat (count (channel two_leds 0))) mod 32 < 27 \<and> (27::nat) < 32 \<and>
   snd (render_channel (channel two_leds 0) 0 (zero_store, 31)) = 23 \<and>
   [bit (render_encode two_leds zero_store 1) 23,
    bit (render_encode two_leds zero_store 1) 22,
    bit (render_encode two_leds zero_store 1) 21] = [True, False, False] \<and>
   bit (render_encode two_leds zero_store 1) 27 = bit (zero_store 1) 27"
proof -
  have c: "count (channel two_leds 0) = 1" "count (channel two_leds 1) = 1"
    "invert (channel two_leds 1) = 0" "leds (channel two_leds 1) 0 = 0x0000FF"
    by (simp_all add: two_leds_def)
  have e: "symbol_bits (encode_symbol 0 (led_color 0x0000FF ! 0) 7) = [True, False, False]"
    by (simp add: symbol_bits_encode led_color_def)
  have "snd (render_channel (channel two_leds 0) 0 (zero_store, 31)) =
     31 - int ((72 * nat (count (channel two_leds 0))) mod 32) \<and>
   (0 < count (channel two_leds 1) \<longrightarrow>
      [bit (render_encode two_leds zero_store 1) (31 - (72 * nat (count (channel two_leds 0))) mod 32),
       bit (render_encode two_leds zero_store 1) (31 - (72 * nat (count (channel two_leds 0))) mod 32 - 1),
       bit (render_encode two_leds zero_store 1) (31 - (72 * nat (count (channel two_leds 0))) mod 32 - 2)] =
      symbol_bits (encode_symbol (invert (channel two_leds 1))
        (led_color (leds (channel two_leds 1) 0) ! 0) 7)) \<and>
   (31 - (72 * nat (count (channel two_leds 0))) mod 32 < 27 \<and> (27::nat) < 32 \<longrightarrow>
      bit (render_encode two_leds zero_store 1) 27 = bit (zero_store 1) 27)"
    using bitpos_carries_over [of two_leds zero_store] by blast
  then show ?thesis
    by (simp only: c e) simp
qed

text \<open>
  C7: the symbol of an inverted channel is the complement, within 3 bits, of the symbol of
  the same bit without inversion, and every sub-bit rendered for a channel with the
  inversion flag set is the negation of the sub-bit rendered for the same colours with
  the flag clear.
\<close>

theorem inversion_complements:
  "(invt \<noteq> 0 \<longrightarrow> encode_symbol invt c k = NOT (encode_symbol 0 c k) AND 7) \<and>
   (chan < 2 \<and> invert (channel ws chan) = 0 \<and> invert (channel ws' chan) \<noteq> 0 \<and>
    count (channel ws' 0) = count (channel ws 0) \<and>
    count (channel ws' chan) = count (channel ws chan) \<and>
    leds (channel ws' chan) = leds (channel ws chan) \<and>
    m < 72 * nat (count (channel ws chan)) \<longrightarrow>
      subbit (render_encode ws' raw') chan (chan_start ws chan + m) =
        (\<not> subbit (render_encode ws raw) chan (chan_start ws chan + m)))"
proof (intro conjI impI)
  assume "invt \<noteq> 0"
  then show "encode_symbol invt c k = NOT (encode_symbol 0 c k) AND 7"
    by (simp add: encode_symbol_def Let_def)
next
  assume a: "chan < 2 \<and> invert (channel ws chan) = 0 \<and> invert (channel ws' chan) \<noteq> 0 \<and>
    count (channel ws' 0) = count (channel ws 0) \<and>
    count (channel ws' chan) = count (channel ws chan) \<and>
    leds (channel ws' chan) = leds (channel ws chan) \<and>
    m < 72 * nat (count (channel ws chan))"
  have st: "chan_start ws' chan = chan_start ws chan"
    using a by (simp add: chan_start_def chan1_start_def)
  have l: "m mod 3 < 3" by simp
  have "subbit (render_encode ws' raw') chan (chan_start ws' chan + m) =
     symbol_bits (encode_symbol (invert (channel ws' chan))
             (led_color (leds (channel ws' chan) (m div 72)) ! ((m mod 72) div 24))
             (7 - (m mod 24) div 3)) ! (m mod 3)"
    using a by (intro render_subbit_decomp) simp_all
  moreover have "subbit (render_encode ws raw) chan (chan_start ws chan + m) =
     symbol_bits (encode_symbol (invert (channel ws chan))
             (led_color (leds (channel ws chan) (m div 72)) ! ((m mod 72) div 24))
             (7 - (m mod 24) div 3)) ! (m mod 3)"
    using a by (intro render_subbit_decomp) simp_all
  ultimately have "subbit (render_encode ws' raw') chan (chan_start ws chan + m) = [False, \<not> b, True] ! (m mod 3)"
    and "subbit (render_encode ws raw) chan (chan_start ws chan + m) = [True, b, False] ! (m mod 3)"
    if "b = bit (led_color (leds (channel ws chan) (m div 72)) ! ((m mod 72) div 24)) (7 - (m mod 24) div 3)" for b
    using a that by (simp_all add: st symbol_bits_encode)
  moreover have "[False, \<not> b, True] ! (m mod 3) = (\<not> [True, b, False] ! (m mod 3))" for b
  proof -
    from l have "m mod 3 = 0 \<or> m mod 3 = 1 \<or> m mod 3 = 2" by arith
    then show ?thesis by auto
  qed
  ultimately show "subbit (render_encode ws' raw') chan (chan_start ws chan + m) =
        (\<not> subbit (render_encode ws raw) chan (chan_start ws chan + m))"
    by simp
qed

theorem inversion_complements_witness:
  "(1::int) \<noteq> 0 \<and> encode_symbol 1 0xFF 3 = NOT (encode_symbol 0 0xFF 3) AND 7 \<and>
   (0::nat) < 2 \<and> invert (channel (single_led 0x010203) 0) = 0 \<and>
   invert (channel (inverted (single_led 0x010203) 0) 0) \<noteq> 0 \<and>
   count (channel (inverted (single_led 0x010203) 0) 0) = count (channel (single_led 0x010203) 0) \<and>
   leds (channel (inverted (single_led 0x010203) 0) 0) = leds (channel (single_led 0x010203) 0) \<and>
   (4::nat) < 72 * nat (count (channel (single_led 0x010203) 0)) \<and>
   subbit (render_encode (inverted (single_led 0x010203) 0) zero_store) 0 4 =
     (\<not> subbit (render_encode (single_led 0x010203) zero_store) 0 4)"
  using inversion_complements [where invt = 1 and c = "0xFF" and k = 3 and chan = 0
      and ws = "single_led 0x010203" and ws' = "inverted (single_led 0x010203) 0"
      and m = 4 and raw = zero_store and raw' = zero_store]
  by (simp add: single_led_facts inverted_def)

section \<open>Claims about initialisation, cleanup, waiting and the DMA chain\<close>

text \<open>
  C8: \<open>pwm_raw_init\<close> sets every word of the buffer to all-zero or all-one by the
  inversion flag of the channel the word belongs to; after any sequence of renders whose
  LED counts are those of the initialisation (the colours and flags may differ), every
  sub-bit of a channel's stream beyond the last encoded symbol, within the buffer, still
  has the idle value.  The initialisation and the size of the buffer have a value
  whenever 72 times the largest LED count fits an \<open>int\<close>.
\<close>

theorem idle_region_kept:
  "(72 * max_channel_led_count ws \<le> INT_MAX \<longrightarrow>
      (\<exists>raw0 bw. pwm_raw_init ws raw = Some raw0 \<and> buffer_words ws = Some bw)) \<and>
   (pwm_raw_init ws raw = Some raw0 \<and> buffer_words ws = Some bw \<and> w < bw \<longrightarrow>
      raw0 w = (if invert (channel ws (w mod 2)) \<noteq> 0 then NOT 0 else 0)) \<and>
   (pwm_raw_init ws raw = Some raw0 \<and> buffer_words ws = Some bw \<and>
    (\<forall>f \<in> set frames. count (channel f 0) = count (channel ws 0) \<and>
                          count (channel f 1) = count (channel ws 1)) \<and>
    c < 2 \<and> chan_start ws c + 72 * nat (count (channel ws c)) \<le> off \<and>
    c + 2 * (off div 32) < bw \<longrightarrow>
      subbit (fold render_encode frames raw0) c off = (invert (channel ws c) \<noteq> 0))"
proof (intro conjI impI)
  assume "72 * max_channel_led_count ws \<le> INT_MAX"
  then show "\<exists>raw0 bw. pwm_raw_init ws raw = Some raw0 \<and> buffer_words ws = Some bw"
    by (rule pwm_raw_init_defined)
next
  assume a: "pwm_raw_init ws raw = Some raw0 \<and> buffer_words ws = Some bw \<and> w < bw"
  then have "raw0 w = (if w < bw then idle_word ws (w mod 2) else raw w)"
    by (intro pwm_raw_init_word) simp_all
  with a show "raw0 w = (if invert (channel ws (w mod 2)) \<noteq> 0 then NOT 0 else 0)"
    by (simp add: idle_word_def)
next
  assume a: "pwm_raw_init ws raw = Some raw0 \<and> buffer_words ws = Some bw \<and>
    (\<forall>f \<in> set frames. count (channel f 0) = count (channel ws 0) \<and>
                          count (channel f 1) = count (channel ws 1)) \<and>
    c < 2 \<and> chan_start ws c + 72 * nat (count (channel ws c)) \<le> off \<and>
    c + 2 * (off div 32) < bw"
  then have c: "c = 0 \<or> c = 1" by auto
  have "subbit (fold render_encode frames raw0) c off = subbit raw0 c off"
  proof (rule renders_keep_beyond)
    show "c < 2" using a by simp
    show "chan_start ws c + 72 * nat (count (channel ws c)) \<le> off" using a by simp
    fix f assume "f \<in> set frames"
    with a c show "count (channel f 0) = count (channel ws 0) \<and>
        count (channel f c) = count (channel ws c)" by auto
  qed
  also have "\<dots> = (invert (channel ws c) \<noteq> 0)"
  proof (rule subbit_idle)
    show "c < 2" using a by simp
    show "pwm_raw_init ws raw = Some raw0" using a by simp
    show "buffer_words ws = Some bw" using a by simp
    show "c + 2 * (off div 32) < bw" using a by simp
  qed
  finally show "subbit (fold render_encode frames raw0) c off = (invert (channel ws c) \<noteq> 0)" .
qed

theorem idle_region_kept_witness:
  "72 * max_channel_led_count two_leds \<le> INT_MAX \<and>
   buffer_words two_leds = Some 16 \<and> (3::nat) < 16 \<and>
   count (channel (inverted two_leds 0) 0) = count (channel two_leds 0) \<and>
   count (channel (inverted two_leds 0) 1) = count (channel two_leds 1) \<and>
   (1::nat) < 2 \<and> chan_start two_leds 1 + 72 * nat (count (channel two_leds 1)) \<le> 80 \<and>
   (1::nat) + 2 * (80 div 32) < 16 \<and>
   (\<exists>raw0. pwm_raw_init two_leds zero_store = Some raw0 \<and> raw0 3 = 0 \<and>
      subbit (fold render_encode [two_leds, inverted two_leds 0] raw0) 1 80 = False)"
proof -
  have mx: "max_channel_led_count two_leds = 1"
    by (simp add: max_channel_led_count_def two_leds_def RPI_PWM_CHANNELS_def upt_rec)
  have d: "72 * max_channel_led_count two_leds \<le> INT_MAX" by (simp add: mx INT_MAX_def)
  have fr: "freq two_leds = 800000" by (simp add: two_leds_def)
  have pb: "PWM_BYTE_COUNT 1 800000 = Some 64"
    by (simp add: PWM_BYTE_COUNT_def LED_BIT_COUNT_def int_mul_def INT_MIN_def INT_MAX_def
          LED_RESET_uS_def RPI_PWM_CHANNELS_def)
  have b: "buffer_words two_leds = Some 16"
    by (simp only: buffer_words_def mx fr pb option.case; simp)
  have c: "count (channel two_leds 0) = 1" "count (channel two_leds 1) = 1"
    "invert (channel two_leds 1) = 0" "invert (channel two_leds (3 mod 2)) = 0"
    "count (channel (inverted two_leds 0) 0) = 1" "count (channel (inverted two_leds 0) 1) = 1"
    by (simp_all add: two_leds_def inverted_def)
  have s: "chan_start two_leds 1 = 8" by (simp add: chan_start_def chan1_start_def c)
  from idle_region_kept [where ws = two_leds and raw = zero_store] d
  obtain raw0 where r: "pwm_raw_init two_leds zero_store = Some raw0" by blast
  note t = idle_region_kept [where ws = two_leds and w = 3 and raw = zero_store
      and raw0 = raw0 and bw = 16
      and frames = "[two_leds, inverted two_leds 0]" and c = 1 and off = 80]
  have f: "\<forall>f \<in> set [two_leds, inverted two_leds 0].
      count (channel f 0) = count (channel two_leds 0) \<and>
      count (channel f 1) = count (channel two_leds 1)"
    by (simp add: two_leds_def inverted_def)
  have g1: "(3::nat) < 16" "(1::nat) < 2" "(1::nat) + 2 * (80 div 32) < 16"
    by simp_all
  have g2: "chan_start two_leds 1 + 72 * nat (count (channel two_leds 1)) \<le> 80"
    by (simp only: c s; simp)
  note g = g1 g2
  from t r b f g have "raw0 3 =
        (if invert (channel two_leds (3 mod 2)) \<noteq> 0 then NOT 0 else 0) \<and>
      subbit (fold render_encode [two_leds, inverted two_leds 0] raw0) 1 80 =
        (invert (channel two_leds 1) \<noteq> 0)"
    by blast
  then have "raw0 3 = 0 \<and>
      subbit (fold render_encode [two_leds, inverted two_leds 0] raw0) 1 80 = False"
    by (simp only: c; simp)
  with r have "\<exists>raw0. pwm_raw_init two_leds zero_store = Some raw0 \<and> raw0 3 = 0 \<and>
      subbit (fold render_encode [two_leds, inverted two_leds 0] raw0) 1 80 = False"
    by blast
  with d b g show ?thesis by (simp only: c; simp)
qed

text \<open>
  C10 (as stated): the failure is returned exactly when the error flag is observed set.
  The loop reads the register twice in a poll and \<open>ws2811_wait\<close> once more after the
  loop, and only that last read decides: with a hardware that shows the error flag in
  the second read and no flag from the third read on, the loop ends on the error flag
  and \<open>ws2811_wait\<close> returns 0.
\<close>

theorem wait_misses_error_flag:
  "ws2811_wait glitch 0 = Some (0, 3) \<and>
   glitch 0 AND RPI_DMA_CS_ACTIVE \<noteq> 0 \<and> glitch 1 AND RPI_DMA_CS_ERROR \<noteq> 0"
  by (simp add: ws2811_wait_def wait_poll.simps glitch_def RPI_DMA_CS_ACTIVE_def
        RPI_DMA_CS_ERROR_def)

text \<open>
  C10 (amended): when \<open>ws2811_wait\<close> returns, it returns -1 exactly if its last read of
  \<open>dma->cs\<close>, the one after the loop, shows the error flag, and 0 otherwise; the loop
  has ended at the first poll whose first read found the active flag clear or whose
  second read found the error flag set, and the last read is the one that follows.  It
  does return once some poll finds the active flag clear or the error flag set.  For an
  error flag that stays set once it is set, it returns -1 exactly if one of its reads
  showed the flag, and when it returns 0 the read before the last one found the active
  flag clear and no read showed the error flag.
\<close>

theorem wait_reports_error_flag:
  "(ws2811_wait cs n = Some (r, n') \<longrightarrow>
      n < n' \<and> (r = - 1 \<or> r = 0) \<and>
      (r = - 1 \<longleftrightarrow> cs (n' - 1) AND RPI_DMA_CS_ERROR \<noteq> 0) \<and>
      (r = 0 \<longleftrightarrow> cs (n' - 1) AND RPI_DMA_CS_ERROR = 0) \<and>
      (\<exists>j. (\<forall>i < j. cs (n + 2 * i) AND RPI_DMA_CS_ACTIVE \<noteq> 0 \<and>
                      cs (n + 2 * i + 1) AND RPI_DMA_CS_ERROR = 0) \<and>
           (cs (n + 2 * j) AND RPI_DMA_CS_ACTIVE = 0 \<and> n' = n + 2 * j + 2 \<or>
            cs (n + 2 * j) AND RPI_DMA_CS_ACTIVE \<noteq> 0 \<and>
            cs (n + 2 * j + 1) AND RPI_DMA_CS_ERROR \<noteq> 0 \<and> n' = n + 2 * j + 3))) \<and>
   (cs (n + 2 * k) AND RPI_DMA_CS_ACTIVE = 0 \<or> cs (n + 2 * k + 1) AND RPI_DMA_CS_ERROR \<noteq> 0 \<longrightarrow>
      (\<exists>r n'. ws2811_wait cs n = Some (r, n'))) \<and>
   (ws2811_wait cs n = Some (r, n') \<and>
    (\<forall>i j. i \<le> j \<and> cs i AND RPI_DMA_CS_ERROR \<noteq> 0 \<longrightarrow> cs j AND RPI_DMA_CS_ERROR \<noteq> 0) \<longrightarrow>
      (r = - 1 \<longleftrightarrow> (\<exists>i. n \<le> i \<and> i < n' \<and> cs i AND RPI_DMA_CS_ERROR \<noteq> 0)) \<and>
      (r = 0 \<longrightarrow> n + 2 \<le> n' \<and> cs (n' - 2) AND RPI_DMA_CS_ACTIVE = 0 \<and>
                 (\<forall>i. n \<le> i \<and> i < n' \<longrightarrow> cs i AND RPI_DMA_CS_ERROR = 0)))"
proof -
  have r1: "n < n' \<and> (r = - 1 \<or> r = 0) \<and>
      (r = - 1 \<longleftrightarrow> cs (n' - 1) AND RPI_DMA_CS_ERROR \<noteq> 0) \<and>
      (r = 0 \<longleftrightarrow> cs (n' - 1) AND RPI_DMA_CS_ERROR = 0)"
    if w: "ws2811_wait cs n = Some (r, n')"
  proof -
    from w obtain m where m: "wait_poll cs n = Some m"
      by (auto simp: ws2811_wait_def split: option.splits)
    then have "n < m" by (rule wait_poll_advances)
    with w m show ?thesis
      by (auto simp: ws2811_wait_def split: if_splits)
  qed
  have x1: "\<exists>j. (\<forall>i < j. cs (n + 2 * i) AND RPI_DMA_CS_ACTIVE \<noteq> 0 \<and>
                      cs (n + 2 * i + 1) AND RPI_DMA_CS_ERROR = 0) \<and>
           (cs (n + 2 * j) AND RPI_DMA_CS_ACTIVE = 0 \<and> n' = n + 2 * j + 2 \<or>
            cs (n + 2 * j) AND RPI_DMA_CS_ACTIVE \<noteq> 0 \<and>
            cs (n + 2 * j + 1) AND RPI_DMA_CS_ERROR \<noteq> 0 \<and> n' = n + 2 * j + 3)"
    if w: "ws2811_wait cs n = Some (r, n')"
  proof -
    from w obtain m where m: "wait_poll cs n = Some m" and n': "n' = m + 1"
      by (auto simp: ws2811_wait_def split: option.splits if_splits)
    from wait_poll_exit [OF m] obtain j where
      "\<forall>i < j. cs (n + 2 * i) AND RPI_DMA_CS_ACTIVE \<noteq> 0 \<and>
                cs (n + 2 * i + 1) AND RPI_DMA_CS_ERROR = 0"
      "cs (n + 2 * j) AND RPI_DMA_CS_ACTIVE = 0 \<and> m = n + 2 * j + 1 \<or>
       cs (n + 2 * j) AND RPI_DMA_CS_ACTIVE \<noteq> 0 \<and>
       cs (n + 2 * j + 1) AND RPI_DMA_CS_ERROR \<noteq> 0 \<and> m = n + 2 * j + 2"
      by blast
    then have "(\<forall>i < j. cs (n + 2 * i) AND RPI_DMA_CS_ACTIVE \<noteq> 0 \<and>
                      cs (n + 2 * i + 1) AND RPI_DMA_CS_ERROR = 0) \<and>
           (cs (n + 2 * j) AND RPI_DMA_CS_ACTIVE = 0 \<and> n' = n + 2 * j + 2 \<or>
            cs (n + 2 * j) AND RPI_DMA_CS_ACTIVE \<noteq> 0 \<and>
            cs (n + 2 * j + 1) AND RPI_DMA_CS_ERROR \<noteq> 0 \<and> n' = n + 2 * j + 3)"
      unfolding n' by auto
    then show ?thesis by (rule exI)
  qed
  have r2: "\<exists>r n'. ws2811_wait cs n = Some (r, n')"
    if "cs (n + 2 * k) AND RPI_DMA_CS_ACTIVE = 0 \<or> cs (n + 2 * k + 1) AND RPI_DMA_CS_ERROR \<noteq> 0"
  proof -
    from that obtain m where "wait_poll cs n = Some m" using wait_poll_returns by blast
    then show ?thesis by (simp add: ws2811_wait_def)
  qed
  have r3: "r = - 1 \<longleftrightarrow> (\<exists>i. n \<le> i \<and> i < n' \<and> cs i AND RPI_DMA_CS_ERROR \<noteq> 0)"
    if w: "ws2811_wait cs n = Some (r, n')"
      and st: "\<forall>i j. i \<le> j \<and> cs i AND RPI_DMA_CS_ERROR \<noteq> 0 \<longrightarrow> cs j AND RPI_DMA_CS_ERROR \<noteq> 0"
  proof
    assume "r = - 1"
    with r1 [OF w] have "n \<le> n' - 1 \<and> n' - 1 < n' \<and> cs (n' - 1) AND RPI_DMA_CS_ERROR \<noteq> 0"
      by auto
    then show "\<exists>i. n \<le> i \<and> i < n' \<and> cs i AND RPI_DMA_CS_ERROR \<noteq> 0" by blast
  next
    assume "\<exists>i. n \<le> i \<and> i < n' \<and> cs i AND RPI_DMA_CS_ERROR \<noteq> 0"
    then obtain i where "i < n'" "cs i AND RPI_DMA_CS_ERROR \<noteq> 0" by blast
    then have i: "i \<le> n' - 1" "cs i AND RPI_DMA_CS_ERROR \<noteq> 0" by simp_all
    with st have "cs (n' - 1) AND RPI_DMA_CS_ERROR \<noteq> 0" by blast
    with r1 [OF w] show "r = - 1" by blast
  qed
  have r4: "n + 2 \<le> n' \<and> cs (n' - 2) AND RPI_DMA_CS_ACTIVE = 0 \<and>
           (\<forall>i. n \<le> i \<and> i < n' \<longrightarrow> cs i AND RPI_DMA_CS_ERROR = 0)"
    if w: "ws2811_wait cs n = Some (r, n')"
      and st: "\<forall>i j. i \<le> j \<and> cs i AND RPI_DMA_CS_ERROR \<noteq> 0 \<longrightarrow> cs j AND RPI_DMA_CS_ERROR \<noteq> 0"
      and r: "r = 0"
  proof -
    from r1 [OF w] r have last: "cs (n' - 1) AND RPI_DMA_CS_ERROR = 0" by simp
    have none: "cs i AND RPI_DMA_CS_ERROR = 0" if "i < n'" for i
    proof (rule ccontr)
      assume "cs i AND RPI_DMA_CS_ERROR \<noteq> 0"
      moreover from that have "i \<le> n' - 1" by simp
      ultimately have "cs (n' - 1) AND RPI_DMA_CS_ERROR \<noteq> 0" using st by blast
      with last show False by simp
    qed
    from x1 [OF w] obtain j where
      e: "cs (n + 2 * j) AND RPI_DMA_CS_ACTIVE = 0 \<and> n' = n + 2 * j + 2 \<or>
          cs (n + 2 * j) AND RPI_DMA_CS_ACTIVE \<noteq> 0 \<and>
          cs (n + 2 * j + 1) AND RPI_DMA_CS_ERROR \<noteq> 0 \<and> n' = n + 2 * j + 3"
      by blast
    have "\<not> (cs (n + 2 * j + 1) AND RPI_DMA_CS_ERROR \<noteq> 0 \<and> n' = n + 2 * j + 3)"
    proof
      assume a: "cs (n + 2 * j + 1) AND RPI_DMA_CS_ERROR \<noteq> 0 \<and> n' = n + 2 * j + 3"
      then have "n + 2 * j + 1 < n'" by simp
      then have "cs (n + 2 * j + 1) AND RPI_DMA_CS_ERROR = 0" by (rule none)
      with a show False by simp
    qed
    with e have x: "cs (n + 2 * j) AND RPI_DMA_CS_ACTIVE = 0" "n' = n + 2 * j + 2" by blast+
    from x(2) have "n' - 2 = n + 2 * j" "n + 2 \<le> n'" by simp_all
    with x(1) none show ?thesis by simp
  qed
  from r1 x1 r2 r3 r4 show ?thesis by blast
qed

theorem wait_reports_error_flag_witness:
  "ws2811_wait busy_then_error 0 = Some (- 1, 7) \<and>
   busy_then_error (7 - 1) AND RPI_DMA_CS_ERROR \<noteq> 0 \<and>
   busy_then_error (0 + 2 * 2 + 1) AND RPI_DMA_CS_ERROR \<noteq> 0 \<and>
   (\<exists>i. 0 \<le> i \<and> i < 7 \<and> busy_then_error i AND RPI_DMA_CS_ERROR \<noteq> 0) \<and>
   ws2811_wait idle_dma 0 = Some (0, 2) \<and>
   idle_dma (2 - 1) AND RPI_DMA_CS_ERROR = 0 \<and>
   idle_dma (2 - 2) AND RPI_DMA_CS_ACTIVE = 0"
proof -
  have e: "ws2811_wait busy_then_error 0 = Some (- 1, 7)"
    by (simp add: ws2811_wait_def wait_poll.simps busy_then_error_def
          RPI_DMA_CS_ACTIVE_def RPI_DMA_CS_ERROR_def)
  have i: "ws2811_wait idle_dma 0 = Some (0, 2)"
    by (simp add: ws2811_wait_def wait_poll.simps idle_dma_def)
  have st: "\<forall>i j. i \<le> j \<and> busy_then_error i AND RPI_DMA_CS_ERROR \<noteq> 0 \<longrightarrow>
      busy_then_error j AND RPI_DMA_CS_ERROR \<noteq> 0"
    by (simp add: busy_then_error_def RPI_DMA_CS_ERROR_def)
  have si: "\<forall>i j. i \<le> j \<and> idle_dma i AND RPI_DMA_CS_ERROR \<noteq> 0 \<longrightarrow>
      idle_dma j AND RPI_DMA_CS_ERROR \<noteq> 0"
    by (simp add: idle_dma_def)
  have h: "busy_then_error (0 + 2 * 2 + 1) AND RPI_DMA_CS_ERROR \<noteq> 0"
    by (simp add: busy_then_error_def RPI_DMA_CS_ERROR_def)
  note a = wait_reports_error_flag [where cs = busy_then_error and n = 0 and r = "- 1"
      and n' = 7 and k = 2]
  note b = wait_reports_error_flag [where cs = idle_dma and n = 0 and r = 0 and n' = 2 and k = 0]
  from a e st have "busy_then_error (7 - 1) AND RPI_DMA_CS_ERROR \<noteq> 0 \<and>
      (\<exists>i. 0 \<le> i \<and> i < 7 \<and> busy_then_error i AND RPI_DMA_CS_ERROR \<noteq> 0)"
    by blast
  moreover from b i si have "idle_dma (2 - 1) AND RPI_DMA_CS_ERROR = 0 \<and>
      idle_dma (2 - 2) AND RPI_DMA_CS_ACTIVE = 0" by blast
  ultimately show ?thesis using e i h by blast
qed



text \<open>
  C4, evaluated where it fails: 225 LEDs at 800 kHz need 4096 bytes, one page.  With a
  page list of two pages the loop writes one control block of 4096 bytes, steps to the
  next control block because a page follows, and leaves at the test of \<open>byte_count\<close>;
  line 385 then clears the next field of control block 1, which was never written, and
  the one written control block keeps the bus address of control block 1 as its next
  field.
\<close>

theorem chain_terminator_misplaced:
  "PWM_BYTE_COUNT 225 800000 = Some 4096 \<and>
   chain_summary
     (setup_pwm_chain example_env example_pagemap [0x10000, 0x11000] 225 800000 zero_cbs) 2 =
     Some (1, [(4096, 0x40020020), (0, 0)])"
  by (simp add: chain_summary_def setup_pwm_chain_def example_env_def example_pagemap_def
        zero_cbs_def addr_to_bus_def PWM_BYTE_COUNT_def LED_BIT_COUNT_def LED_RESET_uS_def
        int_mul_def INT_MIN_def INT_MAX_def
        RPI_PWM_CHANNELS_def upt_rec)


end
